theory Spec2Isabelle
  imports Main "HOL-Library.Word"
begin

unbundle bit_operations_syntax

section \<open>Data model\<close>

text \<open>
  Machine types of the sources. \<open>uint256\<close> is the opaque 256-bit blob (hashes and
  limits), \<open>arith_uint256\<close> the unsigned 256-bit number; \<open>UintToArith256\<close> reads the
  blob as a number, so both are 256-bit words here. \<open>int64_t\<close> quantities (times,
  spacings, heights, the window size) are modelled as \<open>int\<close>: block times are 32-bit
  values widened to 64 bits, and signed overflow has no defined result in C++ that a
  model could follow.
\<close>

type_synonym uint32 = "32 word"
type_synonym uint256 = "256 word"
type_synonym arith_uint256 = "256 word"

definition UintToArith256 :: "uint256 \<Rightarrow> arith_uint256" where
  "UintToArith256 a = a"

text \<open>
  Every way the C++ can leave a function without a value: \<open>std::map::at\<close> on a missing
  key (\<open>std::out_of_range\<close>), a dereferenced null pointer, a division by zero
  (\<open>uint_error\<close> of \<open>arith_uint256\<close>, or the integer trap), and a read past a buffer.
\<close>

datatype error = OutOfRange | NullPointer | DivisionByZero | BufferOverread

text \<open>\<open>Consensus::Params\<close> (src/unnamed/part_000), the fields the retarget code reads.\<close>

record Params =
  powLimit :: uint256
  posLimit :: uint256
  QIP9PosLimit :: uint256
  RBTPosLimit :: uint256
  fPowNoRetargeting :: bool
  fPoSNoRetargeting :: bool
  nPowTargetSpacing :: int
  nRBTPowTargetSpacing :: int
  nPowTargetTimespan :: int
  nPowTargetTimespanV2 :: int
  nRBTPowTargetTimespan :: int
  QIP9Height :: int
  nReduceBlocktimeHeight :: int
  RX2SeedHeight :: uint32
  RX2SeedInterval :: uint32
  lwmaAveragingWindow :: int
  nStakeTimestampMask :: uint32
  nRBTStakeTimestampMask :: uint32

text \<open>C++ division of signed integers truncates towards zero.\<close>

definition cdiv :: "int \<Rightarrow> int \<Rightarrow> int" where
  "cdiv a b = sgn a * sgn b * (\<bar>a\<bar> div \<bar>b\<bar>)"

definition TargetSpacing :: "Params \<Rightarrow> int \<Rightarrow> int" where
  "TargetSpacing p height =
     (if height < nReduceBlocktimeHeight p then nPowTargetSpacing p else nRBTPowTargetSpacing p)"

definition TargetTimespan :: "Params \<Rightarrow> int \<Rightarrow> int" where
  "TargetTimespan p height =
     (if height < QIP9Height p then nPowTargetTimespan p
      else if height < nReduceBlocktimeHeight p then nPowTargetTimespanV2 p
      else nRBTPowTargetTimespan p)"

text \<open>
  \<open>DifficultyAdjustmentInterval\<close> divides two \<open>int64_t\<close>; a zero spacing traps.
\<close>

definition DifficultyAdjustmentInterval :: "Params \<Rightarrow> int \<Rightarrow> error + int" where
  "DifficultyAdjustmentInterval p height =
     (let targetTimespan = TargetTimespan p height;
          targetSpacing = TargetSpacing p height
      in if targetSpacing = 0 then Inl DivisionByZero
         else Inr (cdiv targetTimespan targetSpacing))"

definition StakeTimestampMask :: "Params \<Rightarrow> int \<Rightarrow> uint32" where
  "StakeTimestampMask p height =
     (if height < nReduceBlocktimeHeight p then nStakeTimestampMask p
      else nRBTStakeTimestampMask p)"

subsection \<open>The block index\<close>

text \<open>
  Modelled from the spec: \<open>CBlockIndex\<close> is declared in chain.h, which is not among the
  sources. Spec section 3 (BlockRecord) gives its fields: height, predecessor (none for
  the genesis record), proof kind, timestamp, bits, hash. A block index is immutable
  and its predecessor links never form a cycle, which is what a datatype is.
  \<open>IsProofOfStake\<close>, \<open>IsProofOfWork\<close>, \<open>GetBlockTime\<close> and \<open>GetBlockHash\<close> read
  the fields.
\<close>

datatype ProofKind = ProofOfWork | ProofOfStake

datatype CBlockIndex =
  CBlockIndex (pprev: "CBlockIndex option") (nHeight: int) (proofKind: ProofKind)
    (nTime: int) (nBits: uint32) (hashBlock: uint256)

definition IsProofOfStake :: "CBlockIndex \<Rightarrow> bool" where
  "IsProofOfStake b = (proofKind b = ProofOfStake)"

definition IsProofOfWork :: "CBlockIndex \<Rightarrow> bool" where
  "IsProofOfWork b = (proofKind b = ProofOfWork)"

definition GetBlockTime :: "CBlockIndex \<Rightarrow> int" where
  "GetBlockTime b = nTime b"

definition GetBlockHash :: "CBlockIndex \<Rightarrow> uint256" where
  "GetBlockHash b = hashBlock b"

lemma pprev_size [termination_simp]: "pprev b = Some p \<Longrightarrow> size p < size b"
  by (cases b) simp

text \<open>
  Modelled from the spec: \<open>CBlockIndex::GetAncestor\<close> is defined in chain.cpp, which is
  not among the sources. Spec section 2 (ChainReader): given a height, the block record
  at that height on the branch; null when the height is negative or above the block's
  own. The walk follows the predecessor links.
\<close>

fun AncestorWalk :: "CBlockIndex \<Rightarrow> int \<Rightarrow> CBlockIndex option" where
  "AncestorWalk b height =
     (if nHeight b = height then Some b
      else case pprev b of None \<Rightarrow> None | Some p \<Rightarrow> AncestorWalk p height)"

declare AncestorWalk.simps [simp del]

definition GetAncestor :: "CBlockIndex \<Rightarrow> int \<Rightarrow> CBlockIndex option" where
  "GetAncestor b height =
     (if height > nHeight b \<or> height < 0 then None else AncestorWalk b height)"

subsection \<open>The compact codec and 256-bit arithmetic\<close>

text \<open>
  \<open>arith_uint256::SetCompact\<close> and \<open>GetCompact\<close> are defined in arith_uint256.cpp,
  which is not among the sources. The retarget and verification code is therefore
  modelled over any codec: \<open>SetCompact\<close> yields the decoded number with the negative
  and overflow flags, \<open>GetCompact\<close> the 32-bit encoding.
\<close>

record compact_codec =
  SetCompact :: "uint32 \<Rightarrow> arith_uint256 \<times> bool \<times> bool"
  GetCompact :: "arith_uint256 \<Rightarrow> uint32"

definition DecodeCompact :: "compact_codec \<Rightarrow> uint32 \<Rightarrow> arith_uint256" where
  "DecodeCompact C nCompact = fst (SetCompact C nCompact)"

text \<open>
  Modelled from the spec: the operators of \<open>arith_uint256\<close> are declared in
  arith_uint256.h, which is not among the sources; spec section 4.2 has all magnitude
  arithmetic unsigned and 256 bits wide. The class multiplies by a \<open>uint32_t\<close> and
  divides by an \<open>arith_uint256\<close> built from a \<open>uint64_t\<close>, so an \<open>int64_t\<close> operand of
  \<open>*\<close> and \<open>*=\<close> is reduced modulo \<open>2^32\<close> and one of \<open>/\<close> and \<open>/=\<close> modulo \<open>2^64\<close>;
  dividing by zero throws. For an operand between 0 and \<open>2^32\<close> both are the operand
  itself.
\<close>

definition arith_mul :: "arith_uint256 \<Rightarrow> int \<Rightarrow> arith_uint256" where
  "arith_mul a x = a * ucast (word_of_int x :: 32 word)"

definition arith_of_int64 :: "int \<Rightarrow> arith_uint256" where
  "arith_of_int64 x = ucast (word_of_int x :: 64 word)"

definition arith_div :: "arith_uint256 \<Rightarrow> int \<Rightarrow> error + arith_uint256" where
  "arith_div a x =
     (let d = arith_of_int64 x
      in if d = 0 then Inl DivisionByZero else Inr (a div d))"

section \<open>Proof verification (rx2\_helper.cpp, lines 349-366)\<close>

definition CheckProofOfWork ::
  "compact_codec \<Rightarrow> uint256 \<Rightarrow> uint32 \<Rightarrow> Params \<Rightarrow> bool \<Rightarrow> bool" where
  "CheckProofOfWork C hash bits params fProofOfStake =
     (case SetCompact C bits of (bnTarget, fNegative, fOverflow) \<Rightarrow>
        if fNegative \<or> bnTarget = 0 \<or> fOverflow \<or> bnTarget > UintToArith256 (powLimit params)
        then False
        else if UintToArith256 hash > bnTarget then False
        else True)"


section \<open>The proof-kind window (rx2\_helper.cpp, lines 71-115)\<close>

text \<open>
  A null \<open>const CBlockIndex*\<close> is \<open>None\<close>. Each \<open>while\<close> loop that follows the
  predecessor links is a recursion on the block.
\<close>

fun GetLastBlockIndex :: "CBlockIndex option \<Rightarrow> bool \<Rightarrow> CBlockIndex option" where
  "GetLastBlockIndex None fProofOfStake = None"
| "GetLastBlockIndex (Some b) fProofOfStake =
     (case pprev b of
        None \<Rightarrow> Some b
      | Some p \<Rightarrow>
          if IsProofOfStake b \<noteq> fProofOfStake then GetLastBlockIndex (Some p) fProofOfStake
          else Some b)"

fun CountPoSLoop :: "CBlockIndex option \<Rightarrow> int \<Rightarrow> int \<Rightarrow> int" where
  "CountPoSLoop None nHeightScan nFound = nFound"
| "CountPoSLoop (Some b) nHeightScan nFound =
     (case pprev b of
        None \<Rightarrow> nFound
      | Some p \<Rightarrow>
          if nHeight b > nHeightScan
          then CountPoSLoop (Some p) nHeightScan (if IsProofOfStake b then nFound + 1 else nFound)
          else nFound)"

definition CountPoS :: "CBlockIndex option \<Rightarrow> int \<Rightarrow> int" where
  "CountPoS pindex nHeightScan = CountPoSLoop pindex nHeightScan 0"

text \<open>
  \<open>std::map<int, int>\<close> as an association list: \<open>insert\<close> keeps an existing key,
  \<open>at\<close> throws \<open>std::out_of_range\<close> on a missing one, \<open>size\<close> counts the entries.
\<close>

type_synonym int_map = "(int \<times> int) list"

definition map_insert :: "int_map \<Rightarrow> int \<Rightarrow> int \<Rightarrow> int_map" where
  "map_insert m k v = (if map_of m k = None then m @ [(k, v)] else m)"

definition map_at :: "int_map \<Rightarrow> int \<Rightarrow> error + int" where
  "map_at m k = (case map_of m k of None \<Rightarrow> Inl OutOfRange | Some v \<Rightarrow> Inr v)"

definition map_size :: "int_map \<Rightarrow> int" where
  "map_size m = int (length m)"

text \<open>
  The two loops of \<open>GetContextLWMA\<close> differ only in the test on the block
  (\<open>IsProofOfStake\<close> in the first, \<open>IsProofOfWork\<close> in the second), and the flag
  \<open>fProofOfStake\<close> in their conditions lets exactly one of them run.
\<close>

fun ContextLoop ::
  "(CBlockIndex \<Rightarrow> bool) \<Rightarrow> CBlockIndex option \<Rightarrow> int \<Rightarrow> int \<Rightarrow> int_map \<Rightarrow> int_map" where
  "ContextLoop isKind None nContextScope nIdx mapRet = mapRet"
| "ContextLoop isKind (Some b) nContextScope nIdx mapRet =
     (case pprev b of
        None \<Rightarrow> mapRet
      | Some p \<Rightarrow>
          if nIdx \<le> nContextScope
          then (if isKind b
                then ContextLoop isKind (Some p) nContextScope (nIdx + 1)
                       (map_insert mapRet (nIdx + 1) (nHeight b))
                else ContextLoop isKind (Some p) nContextScope nIdx mapRet)
          else mapRet)"

definition GetContextLWMA :: "CBlockIndex option \<Rightarrow> int \<Rightarrow> bool \<Rightarrow> int_map" where
  "GetContextLWMA pindex nContextScope fProofOfStake =
     (if fProofOfStake then ContextLoop IsProofOfStake pindex nContextScope 0 []
      else ContextLoop IsProofOfWork pindex nContextScope 0 [])"

section \<open>LWMA retargeting (rx2\_helper.cpp, lines 137-239)\<close>

text \<open>
  Lines 168-195: the ppcoin moving average used for the first proof-of-stake blocks.
  \<open>nInterval\<close> is \<open>nPowTargetSpacing / T\<close> with \<open>T = nPowTargetSpacing\<close>.
\<close>

definition Lwma3_ppcoinEMA ::
  "compact_codec \<Rightarrow> CBlockIndex \<Rightarrow> Params \<Rightarrow> bool \<Rightarrow> arith_uint256 \<Rightarrow> error + uint32" where
  "Lwma3_ppcoinEMA C pindexLast params fProofOfStake ProofLimit =
     (let T = nPowTargetSpacing params in
      case GetLastBlockIndex (Some pindexLast) fProofOfStake of
        None \<Rightarrow> Inl NullPointer
      | Some pindexPrev \<Rightarrow>
          if pprev pindexPrev = None then Inr (GetCompact C ProofLimit)
          else
            (case GetLastBlockIndex (pprev pindexPrev) fProofOfStake of
               None \<Rightarrow> Inl NullPointer
             | Some pindexPrevPrev \<Rightarrow>
                 if pprev pindexPrevPrev = None then Inr (GetCompact C ProofLimit)
                 else
                   (let nActualSpacing = GetBlockTime pindexPrev - GetBlockTime pindexPrevPrev;
                        nActualSpacing = (if nActualSpacing < 0 then 1 else nActualSpacing);
                        nActualSpacing =
                          (if nActualSpacing > T * 10 then T * 10 else nActualSpacing);
                        bnNew = DecodeCompact C (nBits pindexLast)
                    in if T = 0 then Inl DivisionByZero
                       else
                         (let nInterval = cdiv (nPowTargetSpacing params) T;
                              bnNew = arith_mul bnNew
                                        ((nInterval - 1) * T + nActualSpacing + nActualSpacing)
                          in case arith_div bnNew ((nInterval + 1) * T) of
                               Inl e \<Rightarrow> Inl e
                             | Inr bnNew \<Rightarrow>
                                 Inr (GetCompact C
                                        (if bnNew \<le> 0 \<or> bnNew > ProofLimit then ProofLimit
                                         else bnNew))))))"

text \<open>
  Lines 208-230: the loop over the \<open>N\<close> most recent blocks of the proof kind, from the
  oldest (\<open>i = N\<close>) to the newest (\<open>i = 1\<close>). It yields \<open>sumWeightedSolvetimes\<close> and
  \<open>avgTarget\<close>.
\<close>

function Lwma3_loop ::
  "compact_codec \<Rightarrow> CBlockIndex \<Rightarrow> int_map \<Rightarrow> int \<Rightarrow> int \<Rightarrow> int \<Rightarrow>
     int \<Rightarrow> int \<Rightarrow> int \<Rightarrow> int \<Rightarrow> arith_uint256 \<Rightarrow> error + (int \<times> arith_uint256)" where
  "Lwma3_loop C pindexLast mapContext T N k i previousTimestamp sumWeightedSolvetimes j avgTarget =
     (if i > 0 then
        (case map_at mapContext i of
           Inl e \<Rightarrow> Inl e
         | Inr h \<Rightarrow>
             (case GetAncestor pindexLast h of
                None \<Rightarrow> Inl NullPointer
              | Some block \<Rightarrow>
                  (let thisTimestamp =
                         (if GetBlockTime block > previousTimestamp then GetBlockTime block
                          else previousTimestamp + 1);
                       solvetime = min (6 * T) (thisTimestamp - previousTimestamp);
                       j = j + 1;
                       sumWeightedSolvetimes = sumWeightedSolvetimes + solvetime * j
                   in case arith_div (DecodeCompact C (nBits block)) N of
                        Inl e \<Rightarrow> Inl e
                      | Inr q \<Rightarrow>
                          (case arith_div q k of
                             Inl e \<Rightarrow> Inl e
                           | Inr q \<Rightarrow>
                               Lwma3_loop C pindexLast mapContext T N k (i - 1) thisTimestamp
                                 sumWeightedSolvetimes j (avgTarget + q)))))
      else Inr (sumWeightedSolvetimes, avgTarget))"
  by pat_completeness auto
termination
  by (relation "measure (\<lambda>(C, pindexLast, mapContext, T, N, k, i, r). nat i)") auto

declare Lwma3_loop.simps [simp del]

text \<open>
  Lines 199-236: the next target as a 256-bit number, before it is encoded.
\<close>

definition Lwma3_nextTarget ::
  "compact_codec \<Rightarrow> CBlockIndex \<Rightarrow> Params \<Rightarrow> int_map \<Rightarrow> arith_uint256 \<Rightarrow>
     error + arith_uint256" where
  "Lwma3_nextTarget C pindexLast params mapContext ProofLimit =
     (let T = nPowTargetSpacing params;
          N = lwmaAveragingWindow params;
          k = cdiv (N * (N + 1) * T) 2
      in case map_at mapContext (N + 1) of
           Inl e \<Rightarrow> Inl e
         | Inr h \<Rightarrow>
             (case GetAncestor pindexLast h of
                None \<Rightarrow> Inl NullPointer
              | Some blockPreviousTimestamp \<Rightarrow>
                  (case Lwma3_loop C pindexLast mapContext T N k N
                          (GetBlockTime blockPreviousTimestamp) 0 0 0 of
                     Inl e \<Rightarrow> Inl e
                   | Inr (sumWeightedSolvetimes, avgTarget) \<Rightarrow>
                       (let nextTarget = arith_mul avgTarget sumWeightedSolvetimes
                        in Inr (if nextTarget > ProofLimit then ProofLimit else nextTarget)))))"

text \<open>
  The comparison \<open>mapContext.size() < (N + 1)\<close> is between a \<open>size_t\<close> and an
  \<open>int64_t\<close>, so \<open>N + 1\<close> is read as an unsigned 64-bit value. The scope \<open>N + 1\<close>
  handed to \<open>GetContextLWMA\<close> and the keys \<open>N + 1\<close> and \<open>i\<close> of the lookups are narrowed
  from \<open>int64_t\<close> to \<open>int\<close>; the narrowing is not modelled. It is the identity on the
  values that occur: the lookups are reached only with \<open>N + 1 \<le> height\<close>, the height is an
  \<open>int\<close>, and a window size is not negative.
\<close>

definition Lwma3CalculateNextWorkRequired ::
  "compact_codec \<Rightarrow> CBlockIndex \<Rightarrow> Params \<Rightarrow> bool \<Rightarrow> error + uint32" where
  "Lwma3CalculateNextWorkRequired C pindexLast params fProofOfStake =
     (if fPowNoRetargeting params \<or> fPoSNoRetargeting params then
        (case GetLastBlockIndex (Some pindexLast) fProofOfStake of
           None \<Rightarrow> Inl NullPointer
         | Some noRetIdx \<Rightarrow> Inr (nBits noRetIdx))
      else
        (let N = lwmaAveragingWindow params;
             height = nHeight pindexLast;
             ProofLimit = UintToArith256
                            (if fProofOfStake then posLimit params else powLimit params)
         in if height < N + 1 then Inr (GetCompact C ProofLimit)
            else
              (let mapContext = GetContextLWMA (Some pindexLast) (N + 1) fProofOfStake
               in if fProofOfStake \<and> map_size mapContext < (N + 1) mod 2 ^ 64
                     \<and> CountPoS (Some pindexLast) 0 \<le> N + 1
                  then Lwma3_ppcoinEMA C pindexLast params fProofOfStake ProofLimit
                  else
                    (case Lwma3_nextTarget C pindexLast params mapContext ProofLimit of
                       Inl e \<Rightarrow> Inl e
                     | Inr nextTarget \<Rightarrow> Inr (GetCompact C nextTarget)))))"

section \<open>Legacy retargeting (rx2\_helper.cpp, lines 50-69 and 250-347)\<close>

text \<open>
  \<open>mul_exp\<close>: the counter \<open>n\<close> is a \<open>uint64_t\<close>; when it wraps to zero the division
  by it throws, so the loop ends after at most \<open>2^64\<close> rounds.
\<close>

function mul_exp_loop ::
  "arith_uint256 \<Rightarrow> int \<Rightarrow> int \<Rightarrow> bool \<Rightarrow> 64 word \<Rightarrow> arith_uint256 \<Rightarrow> error + arith_uint256" where
  "mul_exp_loop a abs_p q isNegative n result =
     (if a > 0 then
        (let n = n + 1 in
         case arith_div (arith_mul a abs_p) q of
           Inl e \<Rightarrow> Inl e
         | Inr a \<Rightarrow>
             if n = 0 then Inl DivisionByZero
             else
               (let a = a div ucast n
                in mul_exp_loop a abs_p q isNegative n
                     (if isNegative \<and> unat n mod 2 = 1 then result - a else result + a)))
      else Inr result)"
  by pat_completeness auto
termination
proof (relation "measure (\<lambda>(a, abs_p, q, isNegative, n, result). 2 ^ 64 - unat n)")
  show "wf (measure (\<lambda>(a, abs_p, q, isNegative, n, result). 2 ^ 64 - unat n))"
    by simp
next
  fix a :: arith_uint256 and abs_p q :: int and isNegative :: bool
    and n x :: "64 word" and result x2 xa :: arith_uint256
  assume "x = n + 1" and "x \<noteq> 0"
  then have "unat x = unat n + 1"
    by (metis add.commute unatSuc Suc_eq_plus1)
  moreover have "unat x < 2 ^ 64"
    using unsigned_less [of x] by simp
  ultimately show "((xa, abs_p, q, isNegative, x,
        if isNegative \<and> unat x mod 2 = 1 then result - xa else result + xa),
       a, abs_p, q, isNegative, n, result)
      \<in> measure (\<lambda>(a, abs_p, q, isNegative, n, result). 2 ^ 64 - unat n)"
    by simp
qed

declare mul_exp_loop.simps [simp del]

definition mul_exp :: "arith_uint256 \<Rightarrow> int \<Rightarrow> int \<Rightarrow> error + arith_uint256" where
  "mul_exp a p q = mul_exp_loop a \<bar>p\<bar> q (p < 0) 0 a"

definition GetLimit :: "int \<Rightarrow> Params \<Rightarrow> bool \<Rightarrow> arith_uint256" where
  "GetLimit height params fProofOfStake =
     (if fProofOfStake then
        (if height < QIP9Height params then UintToArith256 (posLimit params)
         else if height < nReduceBlocktimeHeight params then UintToArith256 (QIP9PosLimit params)
         else UintToArith256 (RBTPosLimit params))
      else UintToArith256 (powLimit params))"

text \<open>
  \<open>stakeTimestampMask + 1\<close> is a \<open>uint32_t\<close> sum, which wraps; the divisions by it are
  signed 64-bit divisions.
\<close>

definition CalculateNextWorkRequired ::
  "compact_codec \<Rightarrow> CBlockIndex \<Rightarrow> int \<Rightarrow> Params \<Rightarrow> bool \<Rightarrow> error + uint32" where
  "CalculateNextWorkRequired C pindexLast nFirstBlockTime params fProofOfStake =
     (if (if fProofOfStake then fPoSNoRetargeting params else fPowNoRetargeting params)
      then Inr (nBits pindexLast)
      else
        (let height = nHeight pindexLast + 1;
             nTargetSpacing = TargetSpacing params height;
             nActualSpacing = GetBlockTime pindexLast - nFirstBlockTime;
             bnTargetLimit = GetLimit height params fProofOfStake;
             bnNew = DecodeCompact C (nBits pindexLast)
         in case DifficultyAdjustmentInterval params height of
              Inl e \<Rightarrow> Inl e
            | Inr nInterval \<Rightarrow>
                (case
                   (if height < QIP9Height params then
                      (let nActualSpacing =
                             (if nActualSpacing < 0 then nTargetSpacing else nActualSpacing);
                           nActualSpacing =
                             (if nActualSpacing > nTargetSpacing * 10 then nTargetSpacing * 10
                              else nActualSpacing)
                       in arith_div
                            (arith_mul bnNew
                               ((nInterval - 1) * nTargetSpacing + nActualSpacing + nActualSpacing))
                            ((nInterval + 1) * nTargetSpacing))
                    else
                      (let nActualSpacing =
                             (if nActualSpacing < 0 then nTargetSpacing else nActualSpacing);
                           nActualSpacing =
                             (if nActualSpacing > nTargetSpacing * 20 then nTargetSpacing * 20
                              else nActualSpacing);
                           maskPlus1 = uint (StakeTimestampMask params height + 1)
                       in if maskPlus1 = 0 then Inl DivisionByZero
                          else mul_exp bnNew
                                 (cdiv (2 * (nActualSpacing - nTargetSpacing)) maskPlus1)
                                 (cdiv ((nInterval + 1) * nTargetSpacing) maskPlus1)))
                 of
                   Inl e \<Rightarrow> Inl e
                 | Inr bnNew \<Rightarrow>
                     Inr (GetCompact C
                            (if bnNew \<le> 0 \<or> bnNew > bnTargetLimit then bnTargetLimit
                             else bnNew)))))"

section \<open>Seed selection (rx2\_helper.cpp, lines 9-38)\<close>

text \<open>
  Modelled from the spec: \<open>CChain\<close> is declared in chain.h, which is not among the
  sources. Spec section 6 (ChainReader): \<open>recordAtHeight\<close> and \<open>genesis\<close> return a block
  record or nothing. The active chain is the list of its blocks by height;
  \<open>operator[]\<close> takes an \<open>int\<close> and returns null outside the chain.
\<close>

type_synonym CChain = "CBlockIndex list"

definition CChain_at :: "CChain \<Rightarrow> int \<Rightarrow> CBlockIndex option" where
  "CChain_at chain height =
     (if height < 0 \<or> height \<ge> int (length chain) then None else Some (chain ! nat height))"

definition Genesis :: "CChain \<Rightarrow> CBlockIndex option" where
  "Genesis chain = CChain_at chain 0"

text \<open>
  The function-local static \<open>current_key_block\<close> is passed in; after the call it holds
  the value returned. \<open>uint256()\<close> is the null hash. The arithmetic is that of
  \<open>uint32_t\<close>, the index handed to \<open>operator[]\<close> is converted to \<open>int\<close>, and a zero
  \<open>SeedInterval\<close> traps in \<open>%\<close>.
\<close>

definition GetRandomXSeed :: "CChain \<Rightarrow> Params \<Rightarrow> uint256 \<Rightarrow> uint32 \<Rightarrow> error + uint256" where
  "GetRandomXSeed chain consensusParams current_key_block height =
     (let SeedStartingHeight = RX2SeedHeight consensusParams;
          SeedInterval = RX2SeedInterval consensusParams
      in if SeedInterval = 0 then Inl DivisionByZero
         else
           (let SwitchKey = SeedStartingHeight mod SeedInterval in
            case (if current_key_block = 0
                  then (case Genesis chain of
                          None \<Rightarrow> Inl NullPointer
                        | Some b \<Rightarrow> Inr (GetBlockHash b))
                  else Inr current_key_block) of
              Inl e \<Rightarrow> Inl e
            | Inr current_key_block \<Rightarrow>
                (let remainer = height mod SeedInterval;
                     first_check = height - remainer;
                     second_check = height - SeedInterval - remainer
                 in if height > height - remainer + SwitchKey then
                      (if height > first_check then
                         (case CChain_at chain (sint (first_check - SeedStartingHeight)) of
                            None \<Rightarrow> Inl NullPointer
                          | Some b \<Rightarrow> Inr (GetBlockHash b))
                       else Inr current_key_block)
                    else
                      (if height > second_check then
                         (case CChain_at chain (sint (second_check - SeedStartingHeight)) of
                            None \<Rightarrow> Inl NullPointer
                          | Some b \<Rightarrow> Inr (GetBlockHash b))
                       else Inr current_key_block))))"

section \<open>The hash engine (crypto/rx2.cpp)\<close>

text \<open>
  The RandomX library is an external collaborator. A cache is determined by the key it
  was initialised with (the hex string of the seed), a VM by its cache, and
  \<open>randomx_calculate_hash\<close> by the VM and the input: the library is the parameter
  \<open>R\<close>, from the key and the input bytes to the hash. The function-local statics are
  the fields of a state; a pointer is \<open>None\<close> while null and otherwise holds the key.
\<close>

type_synonym bytes = "8 word list"

record rx_state =
  is_init :: bool
  randomx_seed2 :: uint256
  cache :: "uint256 option"
  rx_vm :: "uint256 option"

record rx_state2 = rx_state +
  old_data :: bytes
  old_hash :: bytes

definition rx_init :: rx_state where
  "rx_init = \<lparr>is_init = False, randomx_seed2 = 0, cache = None, rx_vm = None\<rparr>"

definition rx_init2 :: rx_state2 where
  "rx_init2 = \<lparr>is_init = False, randomx_seed2 = 0, cache = None, rx_vm = None,
              old_data = replicate 288 0, old_hash = replicate 64 0\<rparr>"

definition rx_slow_hash ::
  "(uint256 \<Rightarrow> bytes \<Rightarrow> bytes) \<Rightarrow> rx_state \<Rightarrow> bytes \<Rightarrow> nat \<Rightarrow> uint256
     \<Rightarrow> error + (bytes \<times> rx_state)" where
  "rx_slow_hash R st data len seedhash =
     (let st =
            (if \<not> is_init st then
               (let st = st\<lparr>randomx_seed2 := seedhash\<rparr>;
                    st = (if cache st = None then st\<lparr>cache := Some (randomx_seed2 st)\<rparr> else st);
                    st = (if rx_vm st = None then st\<lparr>rx_vm := cache st\<rparr> else st)
                in st\<lparr>is_init := True\<rparr>)
             else st);
          st = (if randomx_seed2 st \<noteq> seedhash
                then st\<lparr>randomx_seed2 := seedhash, cache := Some seedhash, rx_vm := Some seedhash\<rparr>
                else st)
      in case rx_vm st of
           None \<Rightarrow> Inl NullPointer
         | Some key \<Rightarrow> Inr (R key (take len data), st))"

text \<open>
  \<open>rx_slow_hash2\<close> sets \<open>is_init\<close> only where it allocates the cache, and keeps the
  last input and hash. \<open>memcmp\<close> reads 144 bytes of \<open>data\<close> whatever \<open>length\<close> is.
\<close>

definition rx_slow_hash2 ::
  "(uint256 \<Rightarrow> bytes \<Rightarrow> bytes) \<Rightarrow> rx_state2 \<Rightarrow> bytes \<Rightarrow> nat \<Rightarrow> uint256
     \<Rightarrow> error + (bytes \<times> rx_state2)" where
  "rx_slow_hash2 R st data len seedhash =
     (let st =
            (if \<not> is_init st then
               (let st = st\<lparr>randomx_seed2 := seedhash\<rparr>;
                    st = (if cache st = None
                          then st\<lparr>cache := Some (randomx_seed2 st), is_init := True\<rparr> else st)
                in if rx_vm st = None then st\<lparr>rx_vm := cache st\<rparr> else st)
             else st);
          st = (if randomx_seed2 st \<noteq> seedhash
                then st\<lparr>randomx_seed2 := seedhash, cache := Some seedhash, rx_vm := Some seedhash\<rparr>
                else st)
      in if length data < 144 then Inl BufferOverread
         else if take 144 data = take 144 (old_data st)
         then Inr (take 32 (old_hash st), st)
         else
           (case rx_vm st of
              None \<Rightarrow> Inl NullPointer
            | Some key \<Rightarrow>
                (let hash = R key (take len data)
                 in Inr (hash, st\<lparr>old_data := take 144 data @ drop 144 (old_data st),
                                 old_hash := take 32 hash @ drop 32 (old_hash st)\<rparr>))))"

section \<open>A concrete codec and parameter set for the examples\<close>

text \<open>
  Modelled from the spec: the codec of \<open>arith_uint256\<close> is not among the sources. Spec
  sections 3 and 4.4 and the glossary describe the compact form as a 32-bit packed
  representation of a 256-bit unsigned value, 8 bits of exponent and 24 bits of
  mantissa, whose decoding can report a negative or an overflowed value. The exponent
  counts bytes, the top bit of the mantissa is the sign. The theorems below hold for
  every codec; this one evaluates the examples.
\<close>

fun bits_nat :: "nat \<Rightarrow> nat" where
  "bits_nat n = (if n = 0 then 0 else Suc (bits_nat (n div 2)))"

declare bits_nat.simps [simp del]

definition arith_SetCompact :: "uint32 \<Rightarrow> arith_uint256 \<times> bool \<times> bool" where
  "arith_SetCompact nCompact =
     (let nSize = unat (drop_bit 24 nCompact);
          nWord = nCompact AND 0x007fffff;
          bn = (if nSize \<le> 3 then ucast (drop_bit (8 * (3 - nSize)) nWord)
                else push_bit (8 * (nSize - 3)) (ucast nWord));
          fNegative = (nWord \<noteq> 0 \<and> (nCompact AND 0x00800000) \<noteq> 0);
          fOverflow = (nWord \<noteq> 0 \<and> (nSize > 34 \<or> (nWord > 0xff \<and> nSize > 33)
                       \<or> (nWord > 0xffff \<and> nSize > 32)))
      in (bn, fNegative, fOverflow))"

definition arith_GetCompact :: "arith_uint256 \<Rightarrow> uint32" where
  "arith_GetCompact bn =
     (let nSize = (bits_nat (unat bn) + 7) div 8;
          nCompact = (if nSize \<le> 3 then push_bit (8 * (3 - nSize)) (ucast bn)
                      else ucast (drop_bit (8 * (nSize - 3)) bn)) :: uint32;
          (nCompact, nSize) = (if nCompact AND 0x00800000 \<noteq> 0
                               then (drop_bit 8 nCompact, nSize + 1) else (nCompact, nSize))
      in nCompact OR push_bit 24 (of_nat nSize))"

definition arith_compact :: compact_codec where
  "arith_compact = \<lparr>SetCompact = arith_SetCompact, GetCompact = arith_GetCompact\<rparr>"

text \<open>
  Example parameters: both limits are the target that \<open>0x1d00ffff\<close> encodes, the
  spacing is 10 seconds, and the averaging window has two blocks.
\<close>

definition params0 :: Params where
  "params0 = \<lparr>powLimit = 0xFFFF0000000000000000000000000000000000000000000000000000,
     posLimit = 0xFFFF0000000000000000000000000000000000000000000000000000,
     QIP9PosLimit = 0xFFFF0000000000000000000000000000000000000000000000000000,
     RBTPosLimit = 0xFFFF0000000000000000000000000000000000000000000000000000,
     fPowNoRetargeting = False, fPoSNoRetargeting = False,
     nPowTargetSpacing = 10, nRBTPowTargetSpacing = 10,
     nPowTargetTimespan = 30, nPowTargetTimespanV2 = 30, nRBTPowTargetTimespan = 30,
     QIP9Height = 1000, nReduceBlocktimeHeight = 2000,
     RX2SeedHeight = 2, RX2SeedInterval = 2, lwmaAveragingWindow = 2,
     nStakeTimestampMask = 15, nRBTStakeTimestampMask = 3\<rparr>"


section \<open>The LWMA window\<close>

text \<open>
  The blocks the loop of lines 208-230 visits, oldest first: the ancestors whose heights
  \<open>mapContext\<close> holds under the keys \<open>i\<close>, \<open>i - 1\<close>, ..., 1; with them the block under
  the key \<open>N + 1\<close>, whose time starts the loop. \<open>None\<close> when a key or an ancestor is
  missing.
\<close>

function window_blocks :: "CBlockIndex \<Rightarrow> int_map \<Rightarrow> int \<Rightarrow> CBlockIndex list option" where
  "window_blocks pindexLast mapContext i =
     (if i > 0 then
        (case map_at mapContext i of
           Inl e \<Rightarrow> None
         | Inr h \<Rightarrow>
             (case GetAncestor pindexLast h of
                None \<Rightarrow> None
              | Some block \<Rightarrow>
                  (case window_blocks pindexLast mapContext (i - 1) of
                     None \<Rightarrow> None
                   | Some bs \<Rightarrow> Some (block # bs))))
      else Some [])"
  by pat_completeness auto
termination
  by (relation "measure (\<lambda>(pindexLast, mapContext, i). nat i)") auto

declare window_blocks.simps [simp del]

definition Lwma3_window ::
  "CBlockIndex \<Rightarrow> int_map \<Rightarrow> int \<Rightarrow> (CBlockIndex \<times> CBlockIndex list) option" where
  "Lwma3_window pindexLast mapContext N =
     (case map_at mapContext (N + 1) of
        Inl e \<Rightarrow> None
      | Inr h \<Rightarrow>
          (case GetAncestor pindexLast h of
             None \<Rightarrow> None
           | Some blockPreviousTimestamp \<Rightarrow>
               (case window_blocks pindexLast mapContext N of
                  None \<Rightarrow> None
                | Some bs \<Rightarrow> Some (blockPreviousTimestamp, bs))))"

text \<open>
  Spec section 4.2, step 6, in its own words: each block's timestamp is raised to at
  least one more than the previous one, its solve time is the distance between the two
  capped at \<open>6 * T\<close>, and the weighted sum gives the solve time at position \<open>j\<close> from
  the oldest the weight \<open>j\<close>. \<open>window_targets\<close> adds the per-block terms
  \<open>target / N / k\<close>, and \<open>cumulative_times\<close> are the block times that a list of solve
  times produces.
\<close>

fun effective_timestamps :: "int \<Rightarrow> int list \<Rightarrow> int list" where
  "effective_timestamps previousTimestamp [] = []"
| "effective_timestamps previousTimestamp (t # ts) =
     max t (previousTimestamp + 1) # effective_timestamps (max t (previousTimestamp + 1)) ts"

fun solvetimes :: "int \<Rightarrow> int \<Rightarrow> int list \<Rightarrow> int list" where
  "solvetimes T previousTimestamp [] = []"
| "solvetimes T previousTimestamp (t # ts) =
     min (6 * T) (max t (previousTimestamp + 1) - previousTimestamp)
       # solvetimes T (max t (previousTimestamp + 1)) ts"

fun weighted_sum :: "int \<Rightarrow> int list \<Rightarrow> int" where
  "weighted_sum j [] = 0"
| "weighted_sum j (s # ss) = (j + 1) * s + weighted_sum (j + 1) ss"

definition window_targets :: "compact_codec \<Rightarrow> int \<Rightarrow> int \<Rightarrow> CBlockIndex list \<Rightarrow> arith_uint256" where
  "window_targets C N k bs =
     sum_list (map (\<lambda>b. DecodeCompact C (nBits b) div arith_of_int64 N div arith_of_int64 k) bs)"

fun cumulative_times :: "int \<Rightarrow> int list \<Rightarrow> int list" where
  "cumulative_times t [] = []"
| "cumulative_times t (r # rs) = (t + r) # cumulative_times (t + r) rs"


section \<open>Example chains\<close>

text \<open>
  A proof-of-work chain of four blocks whose last two solve times are \<open>s1\<close> and \<open>s2\<close>;
  a chain whose block 2 is a proof-of-stake block; and a chain of a genesis block and
  one proof-of-stake block.
\<close>

definition genesis0 :: CBlockIndex where
  "genesis0 = CBlockIndex None 0 ProofOfWork 1000 0x1d00ffff 0x100"

definition example_block1 :: "uint32 \<Rightarrow> CBlockIndex" where
  "example_block1 bits = CBlockIndex (Some genesis0) 1 ProofOfWork 1010 bits 0x101"

definition example_block2 :: "uint32 \<Rightarrow> int \<Rightarrow> CBlockIndex" where
  "example_block2 bits s1 =
     CBlockIndex (Some (example_block1 bits)) 2 ProofOfWork (1010 + s1) bits 0x102"

definition example_block3 :: "uint32 \<Rightarrow> int \<Rightarrow> int \<Rightarrow> CBlockIndex" where
  "example_block3 bits s1 s2 =
     CBlockIndex (Some (example_block2 bits s1)) 3 ProofOfWork (1010 + s1 + s2) bits 0x103"

definition hybrid_block2 :: CBlockIndex where
  "hybrid_block2 =
     CBlockIndex (Some (example_block1 0x1d00ffff)) 2 ProofOfStake 1020 0x1d00ffff 0x102"

definition hybrid_tip :: CBlockIndex where
  "hybrid_tip = CBlockIndex (Some hybrid_block2) 3 ProofOfWork 1030 0x1d00ffff 0x103"

definition stake_tip :: CBlockIndex where
  "stake_tip = CBlockIndex (Some genesis0) 1 ProofOfStake 1010 0x1c00ffff 0x101"

section \<open>The legacy rule, as the specification describes it\<close>

text \<open>
  Spec section 4.3 in its own words: the actual spacing is clamped to \<open>[0, upperBound]\<close>
  (\<open>clamp_spacing\<close>); before the height threshold the target is multiplied by
  \<open>(interval - 1) * T + 2 * actualSpacing\<close> and divided by \<open>(interval + 1) * T\<close>; a result
  that is not positive or is above the limit is replaced by the limit
  (\<open>limit_target\<close>). \<open>legacy_spacing\<close> is the rule the code has in place of the clamp:
  a negative spacing becomes the target spacing, and the result is capped at the upper
  bound.
\<close>

definition clamp_spacing :: "int \<Rightarrow> int \<Rightarrow> int" where
  "clamp_spacing upperBound actualSpacing = max 0 (min upperBound actualSpacing)"

definition legacy_spacing :: "int \<Rightarrow> int \<Rightarrow> int \<Rightarrow> int" where
  "legacy_spacing T c actualSpacing = min (if actualSpacing < 0 then T else actualSpacing) (c * T)"

definition limit_target :: "arith_uint256 \<Rightarrow> arith_uint256 \<Rightarrow> arith_uint256" where
  "limit_target bnTargetLimit bnNew =
     (if bnNew \<le> 0 \<or> bnNew > bnTargetLimit then bnTargetLimit else bnNew)"

definition legacy_blend ::
  "compact_codec \<Rightarrow> arith_uint256 \<Rightarrow> int \<Rightarrow> int \<Rightarrow> int \<Rightarrow> arith_uint256 \<Rightarrow> error + uint32" where
  "legacy_blend C bnNew nInterval T actualSpacing bnTargetLimit =
     (case arith_div (arith_mul bnNew ((nInterval - 1) * T + 2 * actualSpacing))
             ((nInterval + 1) * T) of
        Inl e \<Rightarrow> Inl e
      | Inr bn \<Rightarrow> Inr (GetCompact C (limit_target bnTargetLimit bn)))"

section \<open>The seed block, as the specification describes it\<close>

text \<open>
  The seed block as the specification words it (section 4.5): windows of \<open>SeedInterval\<close>
  blocks that start at \<open>SeedStartingHeight\<close>; the first block of the current window
  once the height has passed the offset \<open>SwitchKey\<close> within its window, the first block
  of the previous window before that, and the genesis block below
  \<open>SeedStartingHeight\<close>.
\<close>

definition spec_seed_height :: "nat \<Rightarrow> nat \<Rightarrow> nat \<Rightarrow> int" where
  "spec_seed_height SeedStartingHeight SeedInterval height =
     (if height < SeedStartingHeight then 0
      else
        (let window = (height - SeedStartingHeight) div SeedInterval;
             offset = (height - SeedStartingHeight) mod SeedInterval;
             SwitchKey = SeedStartingHeight mod SeedInterval
         in if offset > SwitchKey then int (SeedStartingHeight + window * SeedInterval)
            else int (SeedStartingHeight + window * SeedInterval) - int SeedInterval))"

text \<open>The active chain of the example: the four proof-of-work blocks, by height.\<close>

definition seed_chain :: CChain where
  "seed_chain = [genesis0, example_block1 0x1d00ffff, example_block2 0x1d00ffff 10,
                 example_block3 0x1d00ffff 10 10]"

text \<open>A stand-in for the library in the examples: 32 bytes that depend on the key.\<close>

definition example_randomx :: "uint256 \<Rightarrow> bytes \<Rightarrow> bytes" where
  "example_randomx key data = replicate 32 (ucast key)"

section \<open>Chains and the blocks of a proof kind\<close>

text \<open>
  The number of blocks of a kind that the walks of \<open>GetContextLWMA\<close> and \<open>CountPoS\<close> can
  reach: the ancestors that have a predecessor, the starting block included.
\<close>

fun kind_count :: "(CBlockIndex \<Rightarrow> bool) \<Rightarrow> CBlockIndex option \<Rightarrow> nat" where
  "kind_count isKind None = 0"
| "kind_count isKind (Some b) =
     (case pprev b of
        None \<Rightarrow> 0
      | Some p \<Rightarrow> (if isKind b then 1 else 0) + kind_count isKind (Some p))"

text \<open>
  Modelled from the spec: section 3 gives the invariant of the block records. The
  genesis record has height 0 and no predecessor, and every other record is one above
  its predecessor.
\<close>

fun chain_ok :: "CBlockIndex \<Rightarrow> bool" where
  "chain_ok b =
     (case pprev b of
        None \<Rightarrow> nHeight b = 0
      | Some p \<Rightarrow> nHeight b = nHeight p + 1 \<and> chain_ok p)"

declare chain_ok.simps [simp del]

text \<open>
  The blocks that the loops of \<open>GetContextLWMA\<close> count, in the order in which the walk
  along the predecessor links meets them (the starting block first): the blocks of the
  kind that have a predecessor. \<open>context_entries n bs\<close> is the map that gives the
  heights of \<open>bs\<close> the keys \<open>n + 1\<close>, \<open>n + 2\<close>, ...
\<close>

fun kind_blocks :: "(CBlockIndex \<Rightarrow> bool) \<Rightarrow> CBlockIndex option \<Rightarrow> CBlockIndex list" where
  "kind_blocks isKind None = []"
| "kind_blocks isKind (Some b) =
     (case pprev b of
        None \<Rightarrow> []
      | Some p \<Rightarrow>
          if isKind b then b # kind_blocks isKind (Some p) else kind_blocks isKind (Some p))"

fun context_entries :: "nat \<Rightarrow> CBlockIndex list \<Rightarrow> int_map" where
  "context_entries n [] = []"
| "context_entries n (b # bs) = (int n + 1, nHeight b) # context_entries (Suc n) bs"

text \<open>
  The parameters of the seed rotation test of the specification: \<open>SeedInterval = 100\<close>,
  \<open>SeedStartingHeight = 1000\<close>.
\<close>

definition seed_params :: Params where
  "seed_params = params0\<lparr>RX2SeedHeight := 1000, RX2SeedInterval := 100\<rparr>"

section \<open>Evaluating the example codec\<close>

lemma bits_nat_eq: "2 ^ n \<le> m \<Longrightarrow> m < 2 ^ Suc n \<Longrightarrow> bits_nat m = Suc n"
proof (induction n arbitrary: m)
  case 0
  then have "m = 1" by simp
  then show ?case by (simp add: bits_nat.simps)
next
  case (Suc n)
  then have "2 ^ n \<le> m div 2" "m div 2 < 2 ^ Suc n" by auto
  then have "bits_nat (m div 2) = Suc n" by (rule Suc.IH)
  moreover have "m \<noteq> 0" using Suc.prems by auto
  ultimately show ?case by (subst bits_nat.simps) simp
qed

lemma SetCompact_1d00ffff:
  "SetCompact arith_compact 0x1d00ffff = (0xFFFF0000000000000000000000000000000000000000000000000000, False, False)"
  by (simp add: arith_compact_def arith_SetCompact_def)

lemma bits_limit: "bits_nat 0xFFFF0000000000000000000000000000000000000000000000000000 = 224"
proof -
  have "bits_nat 0xFFFF0000000000000000000000000000000000000000000000000000 = Suc 223"
    by (rule bits_nat_eq) simp_all
  then show ?thesis by simp
qed

lemma GetCompact_limit:
  "GetCompact arith_compact 0xFFFF0000000000000000000000000000000000000000000000000000 = 0x1d00ffff"
  by (simp add: arith_compact_def arith_GetCompact_def bits_limit)

section \<open>Proof verification\<close>

text \<open>
  C6. \<open>CheckProofOfWork\<close> returns true exactly when the decoded target is not negative,
  not zero, not overflowed and not above \<open>powLimit\<close>, and the hash read as a 256-bit
  unsigned number is at most the target. For such a target the hash equal to it and the
  hash one below it pass, and the hash one above it (when there is one) fails. The
  function has no other outcome than the two booleans.
\<close>

theorem CheckProofOfWork_iff:
  assumes "SetCompact C bits = (bnTarget, fNegative, fOverflow)"
  shows "(CheckProofOfWork C hash bits params fProofOfStake \<longleftrightarrow>
            \<not> fNegative \<and> bnTarget \<noteq> 0 \<and> \<not> fOverflow
            \<and> bnTarget \<le> UintToArith256 (powLimit params)
            \<and> UintToArith256 hash \<le> bnTarget)
         \<and> (\<not> fNegative \<and> bnTarget \<noteq> 0 \<and> \<not> fOverflow
              \<and> bnTarget \<le> UintToArith256 (powLimit params) \<longrightarrow>
              CheckProofOfWork C bnTarget bits params fProofOfStake
              \<and> CheckProofOfWork C (bnTarget - 1) bits params fProofOfStake
              \<and> (bnTarget + 1 \<noteq> 0 \<longrightarrow>
                   \<not> CheckProofOfWork C (bnTarget + 1) bits params fProofOfStake))"
proof -
  have iff: "CheckProofOfWork C h bits params fProofOfStake \<longleftrightarrow>
            \<not> fNegative \<and> bnTarget \<noteq> 0 \<and> \<not> fOverflow
            \<and> bnTarget \<le> UintToArith256 (powLimit params)
            \<and> UintToArith256 h \<le> bnTarget" for h
    using assms by (auto simp: CheckProofOfWork_def)
  have below: "bnTarget \<noteq> 0 \<Longrightarrow> bnTarget - 1 \<le> bnTarget"
    by (meson less_eq_dec_triv_imp nle_le)
  have above: "bnTarget + 1 \<noteq> 0 \<Longrightarrow> \<not> bnTarget + 1 \<le> bnTarget"
    by (metis add.commute add.right_inverse inc_less_eq_self_iff_eq verit_comp_simplify1(3))
  show ?thesis
    using below above by (simp add: iff UintToArith256_def)
qed

theorem CheckProofOfWork_iff_witness:
  "CheckProofOfWork arith_compact 0xFFFF0000000000000000000000000000000000000000000000000000 0x1d00ffff params0 False
   \<and> CheckProofOfWork arith_compact (0xFFFF0000000000000000000000000000000000000000000000000000 - 1) 0x1d00ffff params0 False
   \<and> \<not> CheckProofOfWork arith_compact (0xFFFF0000000000000000000000000000000000000000000000000000 + 1) 0x1d00ffff params0 False"
  using CheckProofOfWork_iff [OF SetCompact_1d00ffff, of 0 params0 False]
  by (simp add: params0_def UintToArith256_def)

text \<open>
  C10. The result of \<open>CheckProofOfWork\<close> does not depend on its \<open>fProofOfStake\<close>
  argument: the range check reads \<open>powLimit\<close> for either proof kind.
\<close>

theorem CheckProofOfWork_kind_independent:
  "CheckProofOfWork C hash bits params True = CheckProofOfWork C hash bits params False"
  by (simp add: CheckProofOfWork_def)

section \<open>LWMA retargeting\<close>

text \<open>
  C5. With both no-retargeting flags clear and a tip of height below \<open>N + 1\<close>,
  \<open>Lwma3CalculateNextWorkRequired\<close> returns the compact encoding of the proof limit of
  the given kind: \<open>posLimit\<close> for proof of stake, \<open>powLimit\<close> for proof of work.
\<close>

theorem Lwma3_bootstrap:
  assumes "\<not> fPowNoRetargeting params" and "\<not> fPoSNoRetargeting params"
    and "nHeight pindexLast < lwmaAveragingWindow params + 1"
  shows "Lwma3CalculateNextWorkRequired C pindexLast params fProofOfStake =
           Inr (GetCompact C (UintToArith256
                  (if fProofOfStake then posLimit params else powLimit params)))"
  using assms by (simp add: Lwma3CalculateNextWorkRequired_def Let_def)

subsection \<open>The loop and the window\<close>

lemma arith_div_Inr: "arith_div a x = Inr q \<longleftrightarrow> arith_of_int64 x \<noteq> 0 \<and> q = a div arith_of_int64 x"
  by (auto simp: arith_div_def Let_def)

lemma Lwma3_loop_Inr:
  "Lwma3_loop C tip m T N k i prev s j avg = Inr (s', avg') \<Longrightarrow>
     \<exists>bs. window_blocks tip m i = Some bs
        \<and> s' = s + weighted_sum j (solvetimes T prev (map GetBlockTime bs))
        \<and> avg' = avg + window_targets C N k bs
        \<and> (bs \<noteq> [] \<longrightarrow> arith_of_int64 N \<noteq> 0 \<and> arith_of_int64 k \<noteq> 0)"
proof (induction C tip m T N k i prev s j avg rule: Lwma3_loop.induct)
  case (1 C tip m T N k i prev s j avg)
  show ?case
  proof (cases "i > 0")
    case False
    with "1.prems" show ?thesis
      by (simp add: Lwma3_loop.simps window_blocks.simps window_targets_def)
  next
    case True
    from "1.prems" True obtain h block q q' where
      h: "map_at m i = Inr h" and block: "GetAncestor tip h = Some block"
      and q: "arith_div (DecodeCompact C (nBits block)) N = Inr q"
      and q': "arith_div q k = Inr q'"
      by (subst (asm) Lwma3_loop.simps) (auto simp: Let_def split: sum.splits option.splits)
    define this where "this = (if GetBlockTime block > prev then GetBlockTime block else prev + 1)"
    define st where "st = min (6 * T) (this - prev)"
    have this_max: "this = max (GetBlockTime block) (prev + 1)"
      by (auto simp: this_def)
    have rec: "Lwma3_loop C tip m T N k (i - 1) this (s + st * (j + 1)) (j + 1) (avg + q') = Inr (s', avg')"
      using "1.prems" True h block q q'
      by (subst (asm) Lwma3_loop.simps) (simp add: Let_def this_def st_def)
    note IH = "1.IH" [OF True h block refl refl refl refl q q', folded this_def st_def]
    have "\<exists>bs. window_blocks tip m (i - 1) = Some bs
        \<and> s' = (s + st * (j + 1)) + weighted_sum (j + 1) (solvetimes T this (map GetBlockTime bs))
        \<and> avg' = (avg + q') + window_targets C N k bs
        \<and> (bs \<noteq> [] \<longrightarrow> arith_of_int64 N \<noteq> 0 \<and> arith_of_int64 k \<noteq> 0)"
      using IH rec unfolding st_def by blast
    then obtain bs where bs: "window_blocks tip m (i - 1) = Some bs"
      and s': "s' = (s + st * (j + 1)) + weighted_sum (j + 1) (solvetimes T this (map GetBlockTime bs))"
      and avg': "avg' = (avg + q') + window_targets C N k bs"
      by blast
    have w: "window_blocks tip m i = Some (block # bs)"
      using True h block bs by (subst window_blocks.simps) simp
    have nz: "arith_of_int64 N \<noteq> 0" "arith_of_int64 k \<noteq> 0"
      and q'_eq: "q' = DecodeCompact C (nBits block) div arith_of_int64 N div arith_of_int64 k"
      using q q' by (auto simp: arith_div_Inr)
    show ?thesis
      using w s' avg' nz q'_eq
      by (simp add: window_targets_def st_def this_max algebra_simps)
  qed
qed


lemma Lwma3_loop_complete:
  "window_blocks tip m i = Some bs \<Longrightarrow> arith_of_int64 N \<noteq> 0 \<Longrightarrow> arith_of_int64 k \<noteq> 0 \<Longrightarrow>
   Lwma3_loop C tip m T N k i prev s j avg =
     Inr (s + weighted_sum j (solvetimes T prev (map GetBlockTime bs)),
          avg + window_targets C N k bs)"
proof (induction tip m i arbitrary: bs prev s j avg rule: window_blocks.induct)
  case (1 tip m i)
  show ?case
  proof (cases "i > 0")
    case False
    with "1.prems" show ?thesis
      by (simp add: Lwma3_loop.simps window_blocks.simps window_targets_def)
  next
    case True
    from "1.prems"(1) True obtain h block bs' where
      h: "map_at m i = Inr h" and block: "GetAncestor tip h = Some block"
      and bs': "window_blocks tip m (i - 1) = Some bs'" and bs: "bs = block # bs'"
      by (subst (asm) window_blocks.simps) (auto split: sum.splits option.splits)
    note IH = "1.IH" [OF True h block bs' "1.prems"(2,3)]
    have this_max: "(if prev < GetBlockTime block then GetBlockTime block else prev + 1)
                      = max (GetBlockTime block) (prev + 1)"
      by auto
    show ?thesis
      using True h block "1.prems"(2,3)
      by (subst Lwma3_loop.simps)
         (simp add: Let_def arith_div_def IH bs window_targets_def this_max algebra_simps)
  qed
qed

lemma window_blocks_length: "window_blocks tip m i = Some bs \<Longrightarrow> length bs = nat i"
proof (induction tip m i arbitrary: bs rule: window_blocks.induct)
  case (1 tip m i)
  show ?case
  proof (cases "i > 0")
    case False
    with "1.prems" show ?thesis by (simp add: window_blocks.simps)
  next
    case True
    from "1.prems"(1) True obtain h block bs' where
      h: "map_at m i = Inr h" and block: "GetAncestor tip h = Some block"
      and bs': "window_blocks tip m (i - 1) = Some bs'" and bs: "bs = block # bs'"
      by (subst (asm) window_blocks.simps) (auto split: sum.splits option.splits)
    have "length bs' = nat (i - 1)"
      using "1.IH" [OF True h block bs'] .
    with True bs show ?thesis by (simp add: nat_diff_distrib')
  qed
qed

lemma window_blocks_nth:
  "window_blocks tip m i = Some bs \<Longrightarrow> idx < length bs \<Longrightarrow>
   \<exists>h. map_at m (i - int idx) = Inr h \<and> GetAncestor tip h = Some (bs ! idx)"
proof (induction tip m i arbitrary: bs idx rule: window_blocks.induct)
  case (1 tip m i)
  from "1.prems" have pos: "i > 0"
    by (cases "i > 0") (simp_all add: window_blocks.simps)
  from "1.prems"(1) pos obtain h block bs' where
    h: "map_at m i = Inr h" and block: "GetAncestor tip h = Some block"
    and bs': "window_blocks tip m (i - 1) = Some bs'" and bs: "bs = block # bs'"
    by (subst (asm) window_blocks.simps) (auto split: sum.splits option.splits)
  show ?case
  proof (cases idx)
    case 0
    with h block bs show ?thesis by simp
  next
    case (Suc idx')
    with "1.prems"(2) bs have "idx' < length bs'" by simp
    from "1.IH" [OF pos h block bs' this] obtain h' where
      "map_at m (i - 1 - int idx') = Inr h'" "GetAncestor tip h' = Some (bs' ! idx')"
      by blast
    moreover have "i - 1 - int idx' = i - int idx"
      using Suc by simp
    ultimately show ?thesis
      using bs Suc by auto
  qed
qed

lemma effective_timestamps_length [simp]:
  "length (effective_timestamps p ts) = length ts"
  by (induction ts arbitrary: p) simp_all

lemma solvetimes_length [simp]: "length (solvetimes T p ts) = length ts"
  by (induction ts arbitrary: p) simp_all

lemma effective_timestamps_nth:
  "idx < length ts \<Longrightarrow>
   (p # effective_timestamps p ts) ! Suc idx
     = max (ts ! idx) ((p # effective_timestamps p ts) ! idx + 1)"
proof (induction ts arbitrary: p idx)
  case Nil
  then show ?case by simp
next
  case (Cons t ts)
  then show ?case by (cases idx) simp_all
qed

lemma solvetimes_nth:
  "idx < length ts \<Longrightarrow>
   solvetimes T p ts ! idx
     = min (6 * T) ((p # effective_timestamps p ts) ! Suc idx
                     - (p # effective_timestamps p ts) ! idx)"
proof (induction ts arbitrary: p idx)
  case Nil
  then show ?case by simp
next
  case (Cons t ts)
  then show ?case by (cases idx) simp_all
qed

lemma weighted_sum_eq:
  "weighted_sum j ss = (\<Sum>idx<length ss. (j + int idx + 1) * ss ! idx)"
proof (induction ss arbitrary: j)
  case Nil
  then show ?case by simp
next
  case (Cons s ss)
  have "(\<Sum>idx<Suc (length ss). (j + int idx + 1) * (s # ss) ! idx)
        = (j + int 0 + 1) * (s # ss) ! 0
          + (\<Sum>idx<length ss. (j + int (Suc idx) + 1) * (s # ss) ! Suc idx)"
    by (rule sum.lessThan_Suc_shift)
  also have "\<dots> = (j + 1) * s + (\<Sum>idx<length ss. (j + 1 + int idx + 1) * ss ! idx)"
    by (simp add: algebra_simps)
  finally show ?case by (simp add: Cons.IH)
qed

lemma Lwma3_nextTarget_Inr:
  assumes "Lwma3_nextTarget C tip params m ProofLimit = Inr nextTarget"
  shows "\<exists>b0 bs. Lwma3_window tip m (lwmaAveragingWindow params) = Some (b0, bs)
     \<and> nextTarget =
        (let N = lwmaAveragingWindow params; T = nPowTargetSpacing params;
             t = arith_mul (window_targets C N (cdiv (N * (N + 1) * T) 2) bs)
                   (weighted_sum 0 (solvetimes T (GetBlockTime b0) (map GetBlockTime bs)))
         in if t > ProofLimit then ProofLimit else t)"
proof -
  let ?N = "lwmaAveragingWindow params" and ?T = "nPowTargetSpacing params"
  let ?k = "cdiv (?N * (?N + 1) * ?T) 2"
  from assms obtain h b0 s avg where
    h: "map_at m (?N + 1) = Inr h" and b0: "GetAncestor tip h = Some b0"
    and loop: "Lwma3_loop C tip m ?T ?N ?k ?N (GetBlockTime b0) 0 0 0 = Inr (s, avg)"
    and nt: "nextTarget = (let t = arith_mul avg s in if t > ProofLimit then ProofLimit else t)"
    by (auto simp: Lwma3_nextTarget_def Let_def split: sum.splits option.splits)
  from Lwma3_loop_Inr [OF loop] obtain bs where
    bs: "window_blocks tip m ?N = Some bs"
    and s: "s = weighted_sum 0 (solvetimes ?T (GetBlockTime b0) (map GetBlockTime bs))"
    and avg: "avg = window_targets C ?N ?k bs"
    by auto
  have "Lwma3_window tip m ?N = Some (b0, bs)"
    using h b0 bs by (simp add: Lwma3_window_def)
  then show ?thesis
    using nt s avg by (simp add: Let_def)
qed

lemma solvetimes_cumulative:
  "\<forall>r\<in>set rs. 1 \<le> r \<Longrightarrow> solvetimes T t (cumulative_times t rs) = map (min (6 * T)) rs"
  by (induction rs arbitrary: t) (simp_all add: max_absorb1)

lemma weighted_sum_shift: "weighted_sum j xs = weighted_sum 0 xs + j * sum_list xs"
proof (induction xs arbitrary: j)
  case Nil
  then show ?case by simp
next
  case (Cons x xs)
  have "weighted_sum (j + 1) xs = weighted_sum 0 xs + (j + 1) * sum_list xs"
    by (rule Cons.IH)
  moreover have "weighted_sum 1 xs = weighted_sum 0 xs + 1 * sum_list xs"
    using Cons.IH [of 1] by simp
  ultimately show ?case by (simp add: algebra_simps)
qed

lemma weighted_sum_append:
  "weighted_sum j (xs @ ys) = weighted_sum j xs + weighted_sum (j + int (length xs)) ys"
  by (induction xs arbitrary: j) (simp_all add: algebra_simps)

lemma weighted_sum_halves:
  assumes "length L = length S"
  shows "weighted_sum 0 (S @ L) - weighted_sum 0 (L @ S)
           = int (length L) * (sum_list L - sum_list S)"
proof -
  have "weighted_sum 0 (S @ L) = weighted_sum 0 S + weighted_sum 0 L + int (length S) * sum_list L"
    using weighted_sum_shift [of "int (length S)" L] by (simp add: weighted_sum_append)
  moreover have "weighted_sum 0 (L @ S) = weighted_sum 0 L + weighted_sum 0 S + int (length L) * sum_list S"
    using weighted_sum_shift [of "int (length L)" S] by (simp add: weighted_sum_append)
  ultimately show ?thesis
    using assms by (simp add: algebra_simps)
qed

lemma sum_list_halves_mono:
  fixes L S :: "int list"
  assumes "length L = length S" and "\<forall>l\<in>set L. \<forall>s\<in>set S. s \<le> l"
  shows "sum_list S \<le> sum_list L"
  using assms
proof (induction L S rule: list_induct2)
  case Nil
  then show ?case by simp
next
  case (Cons l L s S)
  then have "sum_list S \<le> sum_list L" and "s \<le> l" by auto
  then show ?case by simp
qed

lemma weighted_sum_nonneg: "0 \<le> j \<Longrightarrow> \<forall>x\<in>set xs. 0 \<le> x \<Longrightarrow> 0 \<le> weighted_sum j xs"
  by (induction xs arbitrary: j) simp_all

lemma ucast32_of_int:
  assumes "0 \<le> x" and "x < 2 ^ 32"
  shows "ucast (word_of_int x :: 32 word) = (of_nat (nat x) :: arith_uint256)"
proof -
  have "uint (word_of_int x :: 32 word) = x"
    using assms by (simp add: uint_word_of_int)
  then have "ucast (word_of_int x :: 32 word) = (word_of_int x :: arith_uint256)"
    by (simp add: ucast_eq)
  also have "\<dots> = of_nat (nat x)"
    using assms by (metis of_int_of_nat_eq nat_0_le)
  finally show ?thesis .
qed

lemma unat_mult_of_nat:
  assumes "unat (a::arith_uint256) * n < 2 ^ 256"
  shows "unat (a * of_nat n) = unat a * n"
proof (cases "a = 0")
  case True
  then show ?thesis by simp
next
  case False
  then have "0 < unat a" by (simp add: unat_gt_0)
  then have "n \<le> unat a * n" by simp
  then have n: "n < 2 ^ 256" using assms by (rule le_less_trans)
  then have un: "unat (of_nat n :: arith_uint256) = n"
    by (simp add: unat_of_nat)
  have "unat a * unat (of_nat n :: arith_uint256) < 2 ^ LENGTH(256)"
    using assms un by simp
  then have "unat (a * of_nat n) = unat a * unat (of_nat n :: arith_uint256)"
    by (simp only: unat_mult_lem)
  then show ?thesis by (simp add: un)
qed


lemma arith_mul_eq:
  assumes "0 \<le> x" and "x < 2 ^ 32"
  shows "arith_mul a x = a * of_nat (nat x)"
  using ucast32_of_int [OF assms] by (simp add: arith_mul_def)

lemma arith_mul_mono:
  assumes "0 \<le> x" and "x \<le> y" and "y < 2 ^ 32" and "unat a * nat y < 2 ^ 256"
  shows "arith_mul a x \<le> arith_mul a y"
proof -
  have le: "unat a * nat x \<le> unat a * nat y"
    using assms by (simp add: nat_mono)
  then have lt: "unat a * nat x < 2 ^ 256"
    using assms(4) by (rule le_less_trans)
  have ux: "unat (a * of_nat (nat x)) = unat a * nat x"
    by (rule unat_mult_of_nat [OF lt])
  have uy: "unat (a * of_nat (nat y)) = unat a * nat y"
    by (rule unat_mult_of_nat [OF assms(4)])
  have "arith_mul a x = a * of_nat (nat x)" "arith_mul a y = a * of_nat (nat y)"
    using assms by (simp_all add: arith_mul_eq)
  then show ?thesis
    using le by (simp add: word_le_nat_alt ux uy)
qed

lemma window_blocks_keys:
  "window_blocks tip m n = Some bs \<Longrightarrow> 1 \<le> i \<Longrightarrow> i \<le> n \<Longrightarrow> map_of m i \<noteq> None"
proof (induction tip m n arbitrary: bs rule: window_blocks.induct)
  case (1 tip m n)
  from "1.prems" have pos: "n > 0" by simp
  from "1.prems"(1) pos obtain h block bs' where
    h: "map_at m n = Inr h" and block: "GetAncestor tip h = Some block"
    and bs': "window_blocks tip m (n - 1) = Some bs'"
    by (subst (asm) window_blocks.simps) (auto split: sum.splits option.splits)
  show ?case
  proof (cases "i = n")
    case True
    with h show ?thesis by (auto simp: map_at_def split: option.splits)
  next
    case False
    with "1.prems" have "i \<le> n - 1" by simp
    then show ?thesis
      using "1.IH" [OF pos h block bs' "1.prems"(2)] by simp
  qed
qed

lemma map_size_keys:
  assumes "\<And>i. 1 \<le> i \<Longrightarrow> i \<le> n \<Longrightarrow> map_of m i \<noteq> None"
  shows "n \<le> map_size m"
proof -
  have "{1..n} \<subseteq> fst ` set m"
    using assms by (auto simp: map_of_eq_None_iff)
  then have "card {1..n} \<le> card (fst ` set m)"
    by (intro card_mono) simp_all
  also have "\<dots> \<le> card (set m)"
    by (rule card_image_le) simp
  also have "\<dots> \<le> length m"
    by (rule card_length)
  finally show ?thesis
    by (simp add: map_size_def)
qed

lemma Lwma3_window_size:
  assumes "Lwma3_window tip m N = Some (b0, bs)"
  shows "N + 1 \<le> map_size m"
proof (rule map_size_keys)
  fix i :: int
  assume i: "1 \<le> i" "i \<le> N + 1"
  from assms obtain h where h: "map_at m (N + 1) = Inr h"
    and bs: "window_blocks tip m N = Some bs"
    by (auto simp: Lwma3_window_def split: sum.splits option.splits)
  show "map_of m i \<noteq> None"
  proof (cases "i = N + 1")
    case True
    with h show ?thesis by (auto simp: map_at_def split: option.splits)
  next
    case False
    with i have "i \<le> N" by simp
    with bs i(1) show ?thesis by (rule window_blocks_keys)
  qed
qed

lemma Lwma3_nextTarget_complete:
  assumes N: "lwmaAveragingWindow params = N" and T: "nPowTargetSpacing params = T"
    and k: "cdiv (N * (N + 1) * T) 2 = k"
    and window: "Lwma3_window tip m N = Some (b0, bs)"
    and nz: "arith_of_int64 N \<noteq> 0" "arith_of_int64 k \<noteq> 0"
  shows "Lwma3_nextTarget C tip params m ProofLimit =
     Inr (let t = arith_mul (window_targets C N k bs)
                    (weighted_sum 0 (solvetimes T (GetBlockTime b0) (map GetBlockTime bs)))
          in if t > ProofLimit then ProofLimit else t)"
proof -
  from window obtain h where h: "map_at m (N + 1) = Inr h"
    and b0: "GetAncestor tip h = Some b0"
    and bs: "window_blocks tip m N = Some bs"
    by (auto simp: Lwma3_window_def split: sum.splits option.splits)
  show ?thesis
    by (simp add: Lwma3_nextTarget_def Let_def N T k h b0 Lwma3_loop_complete [OF bs nz])
qed

lemma window_targets_cong:
  assumes "map nBits bs = map nBits bs'"
  shows "window_targets C N k bs = window_targets C N k bs'"
proof -
  let ?g = "\<lambda>bits. DecodeCompact C bits div arith_of_int64 N div arith_of_int64 k"
  have eq: "window_targets C N k xs = sum_list (map ?g (map nBits xs))" for xs
    by (simp add: window_targets_def comp_def)
  show ?thesis by (simp only: eq assms)
qed



subsection \<open>The window on the chain\<close>

text \<open>
  \<open>GetContextLWMA\<close> numbers the blocks of the kind from the tip backwards: key 1 is the
  most recent one, and a larger key is an older block. On a chain that keeps the
  invariant of the block records, \<open>GetAncestor\<close> finds each of these blocks again from
  its height, so the loop of lines 208-230, which runs from key \<open>N\<close> down to key 1,
  visits the last \<open>N\<close> blocks of the kind from the oldest to the newest.
\<close>

lemma context_entries_Cons:
  "context_entries n (b # bs) = (int n + 1, nHeight b) # context_entries (Suc n) bs"
  by simp

lemma context_entries_at:
  "j < length bs \<Longrightarrow>
   map_at (context_entries n bs) (int n + 1 + int j) = Inr (nHeight (bs ! j))"
proof (induction bs arbitrary: n j)
  case Nil
  then show ?case by simp
next
  case (Cons b bs)
  show ?case
  proof (cases j)
    case 0
    then show ?thesis by (simp add: map_at_def)
  next
    case (Suc j')
    with Cons.prems have "j' < length bs" by simp
    from Cons.IH [OF this, of "Suc n"] Suc show ?thesis
      by (simp add: map_at_def add.commute add.left_commute)
  qed
qed

lemma context_entries_length [simp]: "length (context_entries n bs) = length bs"
  by (induction bs arbitrary: n) simp_all

lemma chain_ok_height: "chain_ok b \<Longrightarrow> 0 \<le> nHeight b"
proof (induction b rule: chain_ok.induct)
  case (1 b)
  then show ?case
    by (cases "pprev b") (auto simp: chain_ok.simps [of b])
qed

lemma ContextLoop_entries:
  "map fst m = map int [1..<Suc n] \<Longrightarrow> nIdx = int n \<Longrightarrow>
   ContextLoop isKind pindex nContextScope nIdx m
     = m @ context_entries n (take (nat (nContextScope + 1 - int n)) (kind_blocks isKind pindex))"
proof (induction isKind pindex nContextScope nIdx m arbitrary: n rule: ContextLoop.induct)
  case (1 isKind nContextScope nIdx mapRet)
  then show ?case by simp
next
  case (2 isKind b nContextScope nIdx mapRet)
  show ?case
  proof (cases "pprev b")
    case None
    then show ?thesis by simp
  next
    case (Some p)
    show ?thesis
    proof (cases "nIdx \<le> nContextScope")
      case False
      with Some "2.prems" show ?thesis by simp
    next
      case True
      then have suc: "nat (nContextScope + 1 - int n) = Suc (nat (nContextScope + 1 - int (Suc n)))"
        using "2.prems"(2) by simp
      show ?thesis
      proof (cases "isKind b")
        case kind: True
        have fresh: "map_of mapRet (nIdx + 1) = None"
        proof -
          have "int n + 1 \<notin> set (map fst mapRet)"
            unfolding "2.prems"(1) by auto
          then show ?thesis
            using "2.prems"(2) by (simp add: map_of_eq_None_iff)
        qed
        then have ins: "map_insert mapRet (nIdx + 1) (nHeight b) = mapRet @ [(nIdx + 1, nHeight b)]"
          by (simp add: map_insert_def)
        have keys: "map fst (mapRet @ [(nIdx + 1, nHeight b)]) = map int [1..<Suc (Suc n)]"
          using "2.prems" by simp
        have idx: "nIdx + 1 = int (Suc n)"
          using "2.prems"(2) by simp
        note IH = "2.IH"(1) [OF Some True kind, unfolded ins, OF keys idx]
        have "ContextLoop isKind (Some b) nContextScope nIdx mapRet
                = ContextLoop isKind (Some p) nContextScope (nIdx + 1)
                    (mapRet @ [(nIdx + 1, nHeight b)])"
          using Some True kind ins by simp
        also note IH
        finally show ?thesis
          using Some kind "2.prems"(2)
          by (simp add: suc context_entries_Cons del: ContextLoop.simps)
      next
        case nokind: False
        note IH = "2.IH"(2) [OF Some True nokind "2.prems"]
        have "ContextLoop isKind (Some b) nContextScope nIdx mapRet
                = ContextLoop isKind (Some p) nContextScope nIdx mapRet"
          using Some True nokind by simp
        also note IH
        finally show ?thesis
          using Some nokind by (simp del: ContextLoop.simps)
      qed
    qed
  qed
qed

lemma GetContextLWMA_entries:
  "GetContextLWMA (Some tip) scope fProofOfStake
     = context_entries 0 (take (nat (scope + 1))
         (kind_blocks (if fProofOfStake then IsProofOfStake else IsProofOfWork) (Some tip)))"
  using ContextLoop_entries [of "[]" 0 0 IsProofOfStake "Some tip" scope]
    ContextLoop_entries [of "[]" 0 0 IsProofOfWork "Some tip" scope]
  by (simp add: GetContextLWMA_def del: ContextLoop.simps kind_blocks.simps)

lemma kind_blocks_None: "pprev b = None \<Longrightarrow> kind_blocks isKind (Some b) = []"
  by (subst kind_blocks.simps(2)) (simp only: option.case)

lemma kind_blocks_Some:
  "pprev b = Some p \<Longrightarrow>
   kind_blocks isKind (Some b)
     = (if isKind b then b # kind_blocks isKind (Some p) else kind_blocks isKind (Some p))"
  by (subst kind_blocks.simps(2)) (simp only: option.case)

lemma kind_blocks_ancestor:
  "chain_ok tip \<Longrightarrow> b \<in> set (kind_blocks isKind (Some tip)) \<Longrightarrow>
   AncestorWalk tip (nHeight b) = Some b \<and> 0 \<le> nHeight b \<and> nHeight b \<le> nHeight tip"
proof (induction tip rule: chain_ok.induct)
  case (1 tip)
  show ?case
  proof (cases "pprev tip")
    case None
    with "1.prems"(2) show ?thesis
      by (simp add: kind_blocks_None del: kind_blocks.simps)
  next
    case (Some p)
    with "1.prems"(1) have ok: "chain_ok p" and h: "nHeight tip = nHeight p + 1"
      by (simp_all add: chain_ok.simps [of tip])
    show ?thesis
    proof (cases "b = tip")
      case True
      have "AncestorWalk tip (nHeight tip) = Some tip"
        by (subst AncestorWalk.simps) simp
      with True chain_ok_height [OF "1.prems"(1)] show ?thesis
        by simp
    next
      case False
      with "1.prems"(2) have mem: "b \<in> set (kind_blocks isKind (Some p))"
        by (simp add: kind_blocks_Some [OF Some] del: kind_blocks.simps split: if_splits)
      note IH = "1.IH" [OF Some ok mem]
      then have "nHeight tip \<noteq> nHeight b"
        using h by simp
      then have "AncestorWalk tip (nHeight b) = AncestorWalk p (nHeight b)"
        by (subst AncestorWalk.simps) (simp add: Some)
      with IH h show ?thesis
        by simp
    qed
  qed
qed

lemma kind_blocks_GetAncestor:
  "chain_ok tip \<Longrightarrow> b \<in> set (kind_blocks isKind (Some tip)) \<Longrightarrow>
   GetAncestor tip (nHeight b) = Some b"
  using kind_blocks_ancestor [of tip b isKind] by (simp add: GetAncestor_def del: kind_blocks.simps)

lemma kind_blocks_heights:
  "chain_ok tip \<Longrightarrow> sorted_wrt (>) (map nHeight (kind_blocks isKind (Some tip)))"
proof (induction tip rule: chain_ok.induct)
  case (1 tip)
  show ?case
  proof (cases "pprev tip")
    case None
    then show ?thesis by (simp add: kind_blocks_None del: kind_blocks.simps)
  next
    case (Some p)
    with "1.prems"(1) have ok: "chain_ok p" and h: "nHeight tip = nHeight p + 1"
      by (simp_all add: chain_ok.simps [of tip])
    have "nHeight b < nHeight tip" if "b \<in> set (kind_blocks isKind (Some p))" for b
      using kind_blocks_ancestor [OF ok that] h by simp
    with "1.IH" [OF Some ok] show ?thesis
      by (auto simp del: kind_blocks.simps simp add: kind_blocks_Some [OF Some])
  qed
qed

lemma kind_blocks_length:
  "chain_ok tip \<Longrightarrow> int (length (kind_blocks isKind (Some tip))) \<le> nHeight tip"
proof (induction tip rule: chain_ok.induct)
  case (1 tip)
  show ?case
  proof (cases "pprev tip")
    case None
    with "1.prems" show ?thesis
      by (simp add: kind_blocks_None chain_ok_height del: kind_blocks.simps)
  next
    case (Some p)
    with "1.prems" have ok: "chain_ok p" and h: "nHeight tip = nHeight p + 1"
      by (simp_all add: chain_ok.simps [of tip])
    from "1.IH" [OF Some ok] h show ?thesis
      by (simp add: kind_blocks_Some [OF Some] del: kind_blocks.simps)
  qed
qed

lemma window_blocks_entries:
  assumes ok: "chain_ok tip"
    and sub: "set bs \<subseteq> set (kind_blocks isKind (Some tip))"
  shows "n \<le> length bs \<Longrightarrow>
         window_blocks tip (context_entries 0 bs) (int n) = Some (rev (take n bs))"
proof (induction n)
  case 0
  then show ?case by (simp add: window_blocks.simps)
next
  case (Suc n)
  then have n: "n < length bs" by simp
  have key: "int 0 + 1 + int n = int (Suc n)"
    by simp
  have at: "map_at (context_entries 0 bs) (int (Suc n)) = Inr (nHeight (bs ! n))"
    using context_entries_at [OF n, of 0] unfolding key .
  have "bs ! n \<in> set (kind_blocks isKind (Some tip))"
    using sub n nth_mem by blast
  then have anc: "GetAncestor tip (nHeight (bs ! n)) = Some (bs ! n)"
    by (rule kind_blocks_GetAncestor [OF ok])
  have pred: "int (Suc n) - 1 = int n"
    by simp
  have rest: "window_blocks tip (context_entries 0 bs) (int (Suc n) - 1) = Some (rev (take n bs))"
    unfolding pred using Suc.IH n by simp
  have pos: "int (Suc n) > 0"
    by simp
  have "window_blocks tip (context_entries 0 bs) (int (Suc n)) = Some (bs ! n # rev (take n bs))"
    by (subst window_blocks.simps) (simp only: pos if_True at anc rest sum.case option.case)
  moreover have "rev (take (Suc n) bs) = bs ! n # rev (take n bs)"
    by (simp add: take_Suc_conv_app_nth [OF n])
  ultimately show ?case
    by (simp only:)
qed

lemma Lwma3_window_chain:
  assumes ok: "chain_ok tip" and N: "0 \<le> N"
    and kb: "kb = kind_blocks (if fProofOfStake then IsProofOfStake else IsProofOfWork) (Some tip)"
    and full: "N + 1 \<le> int (length kb)"
  shows "Lwma3_window tip (GetContextLWMA (Some tip) (N + 1) fProofOfStake) N
           = Some (kb ! nat N, rev (take (nat N) kb))"
proof -
  let ?bs = "take (nat (N + 1 + 1)) kb"
  have ctx: "GetContextLWMA (Some tip) (N + 1) fProofOfStake = context_entries 0 ?bs"
    unfolding kb by (rule GetContextLWMA_entries)
  have len: "nat N < length ?bs"
    using N full by simp
  have sub: "set ?bs \<subseteq> set (kind_blocks (if fProofOfStake then IsProofOfStake else IsProofOfWork) (Some tip))"
    unfolding kb [symmetric] by (rule set_take_subset)
  have key: "int 0 + 1 + int (nat N) = N + 1"
    using N by simp
  have at: "map_at (context_entries 0 ?bs) (N + 1) = Inr (nHeight (?bs ! nat N))"
    using context_entries_at [OF len, of 0] unfolding key .
  have "?bs ! nat N \<in> set (kind_blocks (if fProofOfStake then IsProofOfStake else IsProofOfWork) (Some tip))"
    using sub len nth_mem by blast
  then have anc: "GetAncestor tip (nHeight (?bs ! nat N)) = Some (?bs ! nat N)"
    by (rule kind_blocks_GetAncestor [OF ok])
  have "window_blocks tip (context_entries 0 ?bs) (int (nat N)) = Some (rev (take (nat N) ?bs))"
    using len by (intro window_blocks_entries [OF ok sub]) simp
  then have win: "window_blocks tip (context_entries 0 ?bs) N = Some (rev (take (nat N) ?bs))"
    using N by simp
  have nth: "?bs ! nat N = kb ! nat N"
    using N by simp
  have tk: "take (nat N) ?bs = take (nat N) kb"
    using N by (simp add: min_def)
  show ?thesis
    unfolding ctx Lwma3_window_def
    by (simp only: at [unfolded nth] anc [unfolded nth] win [unfolded tk] sum.case option.case)
qed

lemma Lwma3_call_window:
  assumes flags: "\<not> fPowNoRetargeting params" "\<not> fPoSNoRetargeting params"
    and N: "N = lwmaAveragingWindow params" and T: "T = nPowTargetSpacing params"
    and k: "k = cdiv (N * (N + 1) * T) 2"
    and ProofLimit: "ProofLimit = UintToArith256
                       (if fProofOfStake then posLimit params else powLimit params)"
    and height: "N + 1 \<le> nHeight tip"
    and nonneg: "0 \<le> N"
    and win: "Lwma3_window tip (GetContextLWMA (Some tip) (N + 1) fProofOfStake) N = Some (b0, bs)"
    and nz: "arith_of_int64 N \<noteq> 0" "arith_of_int64 k \<noteq> 0"
  shows "Lwma3CalculateNextWorkRequired C tip params fProofOfStake
           = Inr (GetCompact C
               (let t = arith_mul (window_targets C N k bs)
                          (weighted_sum 0 (solvetimes T (GetBlockTime b0) (map GetBlockTime bs)))
                in if t > ProofLimit then ProofLimit else t))"
proof -
  let ?ctx = "GetContextLWMA (Some tip) (N + 1) fProofOfStake"
  have nt: "Lwma3_nextTarget C tip params ?ctx ProofLimit
     = Inr (let t = arith_mul (window_targets C N k bs)
                    (weighted_sum 0 (solvetimes T (GetBlockTime b0) (map GetBlockTime bs)))
          in if t > ProofLimit then ProofLimit else t)"
    by (rule Lwma3_nextTarget_complete [OF N [symmetric] T [symmetric] k [symmetric] win nz])
  have size: "N + 1 \<le> map_size ?ctx"
    by (rule Lwma3_window_size [OF win])
  have modle: "(N + 1) mod 2 ^ 64 \<le> N + 1"
    using nonneg by (intro zmod_le_nonneg_dividend) simp
  show ?thesis
    using flags height size modle nt
    by (simp add: Lwma3CalculateNextWorkRequired_def Let_def N [symmetric]
        ProofLimit [symmetric])
qed

lemma window_heights:
  assumes ok: "chain_ok tip" and n: "n < length (kind_blocks isKind (Some tip))"
  shows "sorted_wrt (<) (map nHeight
           (kind_blocks isKind (Some tip) ! n # rev (take n (kind_blocks isKind (Some tip)))))"
proof -
  let ?kb = "kind_blocks isKind (Some tip)"
  have "sorted_wrt (>) (map nHeight ?kb)"
    by (rule kind_blocks_heights [OF ok])
  then have "sorted_wrt (>) (take (Suc n) (map nHeight ?kb))"
    by (rule sorted_wrt_take)
  then have "sorted_wrt (<) (rev (take (Suc n) (map nHeight ?kb)))"
    by (simp only: sorted_wrt_rev)
  moreover have "rev (take (Suc n) (map nHeight ?kb)) = map nHeight (?kb ! n # rev (take n ?kb))"
    using n by (simp only: take_map rev_map take_Suc_conv_app_nth rev_append rev.simps append.simps)
  ultimately show ?thesis
    by (simp only:)
qed

text \<open>
  C4. Let \<open>kb\<close> be the blocks of the proof kind on the chain of \<open>pindexLast\<close>, the most
  recent first, and let the window be full (\<open>kb\<close> has at least \<open>N + 1\<close> blocks). The
  main path of \<open>Lwma3CalculateNextWorkRequired\<close> then visits the blocks
  \<open>bs = kb ! (N - 1), ..., kb ! 0\<close>, from the oldest to the newest (their heights
  increase strictly, and position \<open>idx\<close> of \<open>bs\<close> is the block that \<open>GetContextLWMA\<close>
  holds under the key \<open>N - idx\<close>), starting from the time of \<open>b0 = kb ! N\<close>. Each
  block's effective timestamp is the larger of its own time and the previous effective
  timestamp plus one, so every distance between consecutive timestamps is at least 1;
  the solve time is that distance capped at \<open>6 * T\<close> (hence at least 1 whenever \<open>T\<close>
  is); \<open>sumWeightedSolvetimes\<close> gives the solve time at position \<open>idx\<close> from the oldest
  (counted from 0) the weight \<open>idx + 1\<close>, so the newest block \<open>kb ! 0\<close> has weight \<open>N\<close>;
  and the value returned is the encoding of the average target times that sum, clamped
  to the proof limit.
\<close>

theorem Lwma3_weighted_solvetimes:
  assumes ok: "chain_ok pindexLast"
    and flags: "\<not> fPowNoRetargeting params" "\<not> fPoSNoRetargeting params"
    and N: "N = lwmaAveragingWindow params" and T: "T = nPowTargetSpacing params"
    and k: "k = cdiv (N * (N + 1) * T) 2"
    and ProofLimit: "ProofLimit = UintToArith256
                       (if fProofOfStake then posLimit params else powLimit params)"
    and nonneg: "0 \<le> N"
    and kb: "kb = kind_blocks (if fProofOfStake then IsProofOfStake else IsProofOfWork)
                    (Some pindexLast)"
    and full: "N + 1 \<le> int (length kb)"
    and nz: "arith_of_int64 N \<noteq> 0" "arith_of_int64 k \<noteq> 0"
  shows "let mapContext = GetContextLWMA (Some pindexLast) (N + 1) fProofOfStake;
             b0 = kb ! nat N;
             bs = rev (take (nat N) kb);
             ts = map GetBlockTime bs;
             stamps = GetBlockTime b0 # effective_timestamps (GetBlockTime b0) ts;
             sts = solvetimes T (GetBlockTime b0) ts;
             sumWeightedSolvetimes = (\<Sum>idx<nat N. (int idx + 1) * sts ! idx);
             t = arith_mul (window_targets C N k bs) sumWeightedSolvetimes
         in Lwma3CalculateNextWorkRequired C pindexLast params fProofOfStake
              = Inr (GetCompact C (if t > ProofLimit then ProofLimit else t))
            \<and> length bs = nat N \<and> length sts = nat N
            \<and> map_at mapContext (N + 1) = Inr (nHeight b0)
            \<and> GetAncestor pindexLast (nHeight b0) = Some b0
            \<and> sorted_wrt (<) (map nHeight (b0 # bs))
            \<and> (\<forall>idx<nat N.
                  bs ! idx = kb ! (nat N - 1 - idx)
                  \<and> map_at mapContext (N - int idx) = Inr (nHeight (bs ! idx))
                  \<and> GetAncestor pindexLast (nHeight (bs ! idx)) = Some (bs ! idx)
                  \<and> stamps ! Suc idx = max (ts ! idx) (stamps ! idx + 1)
                  \<and> 1 \<le> stamps ! Suc idx - stamps ! idx
                  \<and> sts ! idx = min (6 * T) (stamps ! Suc idx - stamps ! idx)
                  \<and> sts ! idx \<le> 6 * T
                  \<and> (1 \<le> T \<longrightarrow> 1 \<le> sts ! idx))"
proof -
  let ?isKind = "if fProofOfStake then IsProofOfStake else IsProofOfWork"
  let ?ctx = "GetContextLWMA (Some pindexLast) (N + 1) fProofOfStake"
  let ?b0 = "kb ! nat N"
  let ?bs = "rev (take (nat N) kb)"
  let ?ts = "map GetBlockTime ?bs"
  let ?stamps = "GetBlockTime ?b0 # effective_timestamps (GetBlockTime ?b0) ?ts"
  let ?sts = "solvetimes T (GetBlockTime ?b0) ?ts"
  let ?sum = "\<Sum>idx<nat N. (int idx + 1) * ?sts ! idx"
  let ?t = "arith_mul (window_targets C N k ?bs) ?sum"
  let ?more = "take (nat (N + 1 + 1)) kb"
  have lenkb: "nat N < length kb"
    using full nonneg by simp
  have height: "N + 1 \<le> nHeight pindexLast"
    using kind_blocks_length [OF ok, of ?isKind] full unfolding kb by simp
  have len: "length ?bs = nat N"
    using lenkb by simp
  have len_sts: "length ?sts = nat N"
    using len by simp
  have win: "Lwma3_window pindexLast ?ctx N = Some (?b0, ?bs)"
    by (rule Lwma3_window_chain [OF ok nonneg kb full])
  have sum: "weighted_sum 0 ?sts = ?sum"
    using lenkb by (simp add: weighted_sum_eq min_def)
  have call: "Lwma3CalculateNextWorkRequired C pindexLast params fProofOfStake
                = Inr (GetCompact C (if ?t > ProofLimit then ProofLimit else ?t))"
    using Lwma3_call_window [OF flags N T k ProofLimit height nonneg win nz, of C]
    unfolding Let_def sum .
  have ctx: "?ctx = context_entries 0 ?more"
    unfolding kb by (rule GetContextLWMA_entries)
  have at: "map_at ?ctx (int j + 1) = Inr (nHeight (kb ! j))
            \<and> GetAncestor pindexLast (nHeight (kb ! j)) = Some (kb ! j)" if "j \<le> nat N" for j
  proof -
    from that lenkb nonneg have j: "j < length ?more" "j < length kb"
      by simp_all
    have key: "int 0 + 1 + int j = int j + 1"
      by simp
    have nth: "?more ! j = kb ! j"
      using that nonneg by simp
    have a: "map_at ?ctx (int j + 1) = Inr (nHeight (kb ! j))"
      using context_entries_at [OF j(1), of 0] unfolding key ctx nth .
    have "kb ! j \<in> set (kind_blocks ?isKind (Some pindexLast))"
      using j(2) nth_mem unfolding kb by blast
    then have "GetAncestor pindexLast (nHeight (kb ! j)) = Some (kb ! j)"
      by (rule kind_blocks_GetAncestor [OF ok])
    with a show ?thesis ..
  qed
  have start: "map_at ?ctx (N + 1) = Inr (nHeight ?b0)
               \<and> GetAncestor pindexLast (nHeight ?b0) = Some ?b0"
    using at [of "nat N"] nonneg by simp
  have heights: "sorted_wrt (<) (map nHeight (?b0 # ?bs))"
    using window_heights [OF ok, of "nat N" ?isKind] lenkb unfolding kb by simp
  have each: "?bs ! idx = kb ! (nat N - 1 - idx)
                  \<and> map_at ?ctx (N - int idx) = Inr (nHeight (?bs ! idx))
                  \<and> GetAncestor pindexLast (nHeight (?bs ! idx)) = Some (?bs ! idx)
                  \<and> ?stamps ! Suc idx = max (?ts ! idx) (?stamps ! idx + 1)
                  \<and> 1 \<le> ?stamps ! Suc idx - ?stamps ! idx
                  \<and> ?sts ! idx = min (6 * T) (?stamps ! Suc idx - ?stamps ! idx)
                  \<and> ?sts ! idx \<le> 6 * T
                  \<and> (1 \<le> T \<longrightarrow> 1 \<le> ?sts ! idx)" if "idx < nat N" for idx
  proof -
    from that len have idx: "idx < length ?ts" by simp
    have pos: "?bs ! idx = kb ! (nat N - 1 - idx)"
      using that lenkb by (simp add: rev_nth)
    have key: "int (nat N - 1 - idx) + 1 = N - int idx"
      using that by simp
    note at' = at [of "nat N - 1 - idx", unfolded key, folded pos]
    have a: "?stamps ! Suc idx = max (?ts ! idx) (?stamps ! idx + 1)"
      by (rule effective_timestamps_nth [OF idx])
    have b: "?sts ! idx = min (6 * T) (?stamps ! Suc idx - ?stamps ! idx)"
      by (rule solvetimes_nth [OF idx])
    have c: "1 \<le> ?stamps ! Suc idx - ?stamps ! idx"
      unfolding a by simp
    have d: "?sts ! idx \<le> 6 * T" "1 \<le> T \<longrightarrow> 1 \<le> ?sts ! idx"
      using b c by simp_all
    from at' have e: "map_at ?ctx (N - int idx) = Inr (nHeight (?bs ! idx))"
      "GetAncestor pindexLast (nHeight (?bs ! idx)) = Some (?bs ! idx)"
      by simp_all
    from pos e a c b d show ?thesis
      by (intro conjI)
  qed
  show ?thesis
    unfolding Let_def using call len len_sts start heights each by blast
qed


text \<open>
  Multiplying a target by a larger weighted sum gives a strictly larger target exactly
  when the target is not zero, as long as nothing overflows; and clamping two ordered
  targets to the limit keeps them apart exactly when the smaller one is below the limit.
\<close>

lemma arith_mul_less_iff:
  assumes "0 \<le> x" and "x \<le> y" and "y < 2 ^ 32" and "unat a * nat y < 2 ^ 256"
  shows "arith_mul a x < arith_mul a y \<longleftrightarrow> a \<noteq> 0 \<and> x < y"
proof -
  have le: "unat a * nat x \<le> unat a * nat y"
    using assms by (simp add: nat_mono)
  then have lt: "unat a * nat x < 2 ^ 256"
    using assms(4) by (rule le_less_trans)
  have ux: "unat (a * of_nat (nat x)) = unat a * nat x"
    by (rule unat_mult_of_nat [OF lt])
  have uy: "unat (a * of_nat (nat y)) = unat a * nat y"
    by (rule unat_mult_of_nat [OF assms(4)])
  have eq: "arith_mul a x = a * of_nat (nat x)" "arith_mul a y = a * of_nat (nat y)"
    using assms by (simp_all add: arith_mul_eq)
  have "arith_mul a x < arith_mul a y \<longleftrightarrow> unat a * nat x < unat a * nat y"
    by (simp only: eq word_less_nat_alt ux uy)
  also have "\<dots> \<longleftrightarrow> 0 < unat a \<and> nat x < nat y"
    by simp
  also have "\<dots> \<longleftrightarrow> a \<noteq> 0 \<and> x < y"
    using assms(1) by (auto simp: unat_gt_0 nat_less_eq_zless)
  finally show ?thesis .
qed

lemma clamp_less_iff:
  fixes a b limit :: arith_uint256
  assumes "a \<le> b"
  shows "(if a > limit then limit else a) < (if b > limit then limit else b)
         \<longleftrightarrow> a < b \<and> (if a > limit then limit else a) < limit"
  using assms by auto

lemma halves_strict:
  fixes L S :: "int list"
  assumes "length L = length S" and "sum_list S \<le> sum_list L"
  shows "0 < int (length L) * (sum_list L - sum_list S) \<longleftrightarrow> sum_list S < sum_list L"
proof (cases L)
  case Nil
  with assms(1) show ?thesis by simp
next
  case (Cons l ls)
  then have "0 < int (length L)" by simp
  then show ?thesis
    by (simp add: zero_less_mult_iff)
qed

text \<open>
  C8, amended. Take two full windows on two chains, with the same bits, the same first
  timestamp and the same solve times (each at least 1), where the longer solve times
  \<open>L\<close> fill the older half of one window and the newer half of the other. When the
  weighted sum fits 32 bits and its product with the average target fits 256 bits, the
  window with the longer recent solve times gets a next target that is never smaller,
  and it is strictly larger exactly when the average target is not zero, the solve times
  of \<open>L\<close> capped at \<open>6 * T\<close> sum to more than those of \<open>S\<close>, and the target of the other
  window is below the proof limit. The targets are the 256-bit numbers that
  \<open>Lwma3CalculateNextWorkRequired\<close> encodes.
\<close>

theorem Lwma3_recent_long_easier:
  fixes L S :: "int list"
  assumes ok: "chain_ok tipOld" "chain_ok tipNew"
    and flags: "\<not> fPowNoRetargeting params" "\<not> fPoSNoRetargeting params"
    and N: "N = lwmaAveragingWindow params" and T: "T = nPowTargetSpacing params"
    and k: "k = cdiv (N * (N + 1) * T) 2"
    and ProofLimit: "ProofLimit = UintToArith256
                       (if fProofOfStake then posLimit params else powLimit params)"
    and kbOld: "kbOld = kind_blocks (if fProofOfStake then IsProofOfStake else IsProofOfWork)
                          (Some tipOld)"
    and kbNew: "kbNew = kind_blocks (if fProofOfStake then IsProofOfStake else IsProofOfWork)
                          (Some tipNew)"
    and full: "N + 1 \<le> int (length kbOld)" "N + 1 \<le> int (length kbNew)"
    and start: "GetBlockTime (kbOld ! nat N) = startTime"
      "GetBlockTime (kbNew ! nat N) = startTime"
    and bits: "map nBits (rev (take (nat N) kbOld)) = map nBits (rev (take (nat N) kbNew))"
    and timesOld: "map GetBlockTime (rev (take (nat N) kbOld))
                     = cumulative_times startTime (L @ S)"
    and timesNew: "map GetBlockTime (rev (take (nat N) kbNew))
                     = cumulative_times startTime (S @ L)"
    and len: "length L = length S"
    and pos: "\<forall>r\<in>set (L @ S). 1 \<le> r"
    and longer: "\<forall>l\<in>set L. \<forall>s\<in>set S. s \<le> l"
    and nonneg: "0 \<le> N" "0 \<le> T"
    and nz: "arith_of_int64 N \<noteq> 0" "arith_of_int64 k \<noteq> 0"
    and fits: "weighted_sum 0 (map (min (6 * T)) (S @ L)) < 2 ^ 32"
      "unat (window_targets C N k (rev (take (nat N) kbNew)))
         * nat (weighted_sum 0 (map (min (6 * T)) (S @ L))) < 2 ^ 256"
  shows "\<exists>targetOld targetNew.
           Lwma3_nextTarget C tipOld params
               (GetContextLWMA (Some tipOld) (N + 1) fProofOfStake) ProofLimit = Inr targetOld
         \<and> Lwma3_nextTarget C tipNew params
               (GetContextLWMA (Some tipNew) (N + 1) fProofOfStake) ProofLimit = Inr targetNew
         \<and> Lwma3CalculateNextWorkRequired C tipOld params fProofOfStake
              = Inr (GetCompact C targetOld)
         \<and> Lwma3CalculateNextWorkRequired C tipNew params fProofOfStake
              = Inr (GetCompact C targetNew)
         \<and> targetOld \<le> targetNew
         \<and> (targetOld < targetNew \<longleftrightarrow>
              window_targets C N k (rev (take (nat N) kbNew)) \<noteq> 0
              \<and> sum_list (map (min (6 * T)) S) < sum_list (map (min (6 * T)) L)
              \<and> targetOld < ProofLimit)"
proof -
  let ?cap = "min (6 * T)"
  let ?bsOld = "rev (take (nat N) kbOld)"
  let ?bsNew = "rev (take (nat N) kbNew)"
  let ?ctxOld = "GetContextLWMA (Some tipOld) (N + 1) fProofOfStake"
  let ?ctxNew = "GetContextLWMA (Some tipNew) (N + 1) fProofOfStake"
  let ?avg = "window_targets C N k ?bsNew"
  let ?sumOld = "weighted_sum 0 (map ?cap (L @ S))"
  let ?sumNew = "weighted_sum 0 (map ?cap (S @ L))"
  let ?clamp = "\<lambda>t. if t > ProofLimit then ProofLimit else t"
  have height: "N + 1 \<le> nHeight tipOld" "N + 1 \<le> nHeight tipNew"
    using kind_blocks_length [OF ok(1), of "if fProofOfStake then IsProofOfStake else IsProofOfWork"]
      kind_blocks_length [OF ok(2), of "if fProofOfStake then IsProofOfStake else IsProofOfWork"]
      full
    unfolding kbOld kbNew by simp_all
  have winOld: "Lwma3_window tipOld ?ctxOld N = Some (kbOld ! nat N, ?bsOld)"
    by (rule Lwma3_window_chain [OF ok(1) nonneg(1) kbOld full(1)])
  have winNew: "Lwma3_window tipNew ?ctxNew N = Some (kbNew ! nat N, ?bsNew)"
    by (rule Lwma3_window_chain [OF ok(2) nonneg(1) kbNew full(2)])
  have stOld: "solvetimes T startTime (map GetBlockTime ?bsOld) = map ?cap (L @ S)"
    using pos by (simp only: timesOld solvetimes_cumulative)
  have posNew: "\<forall>r\<in>set (S @ L). 1 \<le> r"
    using pos by auto
  have stNew: "solvetimes T startTime (map GetBlockTime ?bsNew) = map ?cap (S @ L)"
    using posNew by (simp only: timesNew solvetimes_cumulative)
  have avg: "window_targets C N k ?bsOld = ?avg"
    by (rule window_targets_cong [OF bits])
  have nextOld: "Lwma3_nextTarget C tipOld params ?ctxOld ProofLimit
                   = Inr (?clamp (arith_mul ?avg ?sumOld))"
    using Lwma3_nextTarget_complete [OF N [symmetric] T [symmetric] k [symmetric] winOld nz,
        of C ProofLimit]
    unfolding start stOld avg Let_def .
  have nextNew: "Lwma3_nextTarget C tipNew params ?ctxNew ProofLimit
                   = Inr (?clamp (arith_mul ?avg ?sumNew))"
    using Lwma3_nextTarget_complete [OF N [symmetric] T [symmetric] k [symmetric] winNew nz,
        of C ProofLimit]
    unfolding start stNew Let_def .
  have callOld: "Lwma3CalculateNextWorkRequired C tipOld params fProofOfStake
                   = Inr (GetCompact C (?clamp (arith_mul ?avg ?sumOld)))"
    using Lwma3_call_window [OF flags N T k ProofLimit height(1) nonneg(1) winOld nz, of C]
    unfolding start stOld avg Let_def .
  have callNew: "Lwma3CalculateNextWorkRequired C tipNew params fProofOfStake
                   = Inr (GetCompact C (?clamp (arith_mul ?avg ?sumNew)))"
    using Lwma3_call_window [OF flags N T k ProofLimit height(2) nonneg(1) winNew nz, of C]
    unfolding start stNew Let_def .
  have diff: "?sumNew - ?sumOld
                = int (length L) * (sum_list (map ?cap L) - sum_list (map ?cap S))"
    using weighted_sum_halves [of "map ?cap L" "map ?cap S"] len by simp
  have total: "sum_list (map ?cap S) \<le> sum_list (map ?cap L)"
  proof (rule sum_list_halves_mono)
    show "length (map ?cap L) = length (map ?cap S)"
      using len by simp
    show "\<forall>l\<in>set (map ?cap L). \<forall>s\<in>set (map ?cap S). s \<le> l"
    proof (intro ballI)
      fix l' s'
      assume "l' \<in> set (map ?cap L)" and "s' \<in> set (map ?cap S)"
      then obtain l s where l: "l \<in> set L" "l' = ?cap l" and s: "s \<in> set S" "s' = ?cap s"
        by auto
      from longer l(1) s(1) have "s \<le> l" by blast
      then show "s' \<le> l'"
        unfolding l(2) s(2) by (auto simp: min_def)
    qed
  qed
  then have "0 \<le> int (length L) * (sum_list (map ?cap L) - sum_list (map ?cap S))"
    by simp
  with diff have le: "?sumOld \<le> ?sumNew"
    by simp
  have "0 < int (length (map ?cap L)) * (sum_list (map ?cap L) - sum_list (map ?cap S))
          \<longleftrightarrow> sum_list (map ?cap S) < sum_list (map ?cap L)"
    using len total by (intro halves_strict) simp_all
  then have "0 < ?sumNew - ?sumOld \<longleftrightarrow> sum_list (map ?cap S) < sum_list (map ?cap L)"
    unfolding diff by simp
  then have less: "?sumOld < ?sumNew \<longleftrightarrow> sum_list (map ?cap S) < sum_list (map ?cap L)"
    by linarith
  have "\<forall>x\<in>set (map ?cap (L @ S)). 0 \<le> x"
  proof
    fix x
    assume "x \<in> set (map ?cap (L @ S))"
    then obtain r where "r \<in> set (L @ S)" and x: "x = ?cap r"
      by auto
    with pos have "1 \<le> r" by blast
    then show "0 \<le> x"
      using nonneg(2) unfolding x by simp
  qed
  then have ge0: "0 \<le> ?sumOld"
    by (intro weighted_sum_nonneg) simp_all
  have mono: "arith_mul ?avg ?sumOld \<le> arith_mul ?avg ?sumNew"
    using ge0 le fits by (rule arith_mul_mono)
  then have clamp: "?clamp (arith_mul ?avg ?sumOld) \<le> ?clamp (arith_mul ?avg ?sumNew)"
    by auto
  have strict_mul: "arith_mul ?avg ?sumOld < arith_mul ?avg ?sumNew
                      \<longleftrightarrow> ?avg \<noteq> 0 \<and> sum_list (map ?cap S) < sum_list (map ?cap L)"
    using arith_mul_less_iff [OF ge0 le fits] less by simp
  have strict: "?clamp (arith_mul ?avg ?sumOld) < ?clamp (arith_mul ?avg ?sumNew)
                  \<longleftrightarrow> ?avg \<noteq> 0 \<and> sum_list (map ?cap S) < sum_list (map ?cap L)
                       \<and> ?clamp (arith_mul ?avg ?sumOld) < ProofLimit"
    using clamp_less_iff [OF mono, of ProofLimit] strict_mul by blast
  show ?thesis
    using nextOld nextNew callOld callNew clamp strict by blast
qed

subsection \<open>The examples, evaluated\<close>

lemma example_context:
  "GetContextLWMA (Some (example_block3 bits s1 s2)) 3 False = [(1, 3), (2, 2), (3, 1)]"
  by (simp add: example_block3_def example_block2_def example_block1_def genesis0_def
      GetContextLWMA_def IsProofOfWork_def map_insert_def)

lemma example_ancestors:
  "GetAncestor (example_block3 bits s1 s2) 3 = Some (example_block3 bits s1 s2)"
  "GetAncestor (example_block3 bits s1 s2) 2 = Some (example_block2 bits s1)"
  "GetAncestor (example_block3 bits s1 s2) 1 = Some (example_block1 bits)"
  by (simp_all add: GetAncestor_def AncestorWalk.simps example_block3_def example_block2_def
      example_block1_def)

lemma example_window:
  "Lwma3_window (example_block3 bits s1 s2) [(1, 3), (2, 2), (3, 1)] 2
     = Some (example_block1 bits, [example_block2 bits s1, example_block3 bits s1 s2])"
  by (simp add: Lwma3_window_def window_blocks.simps map_at_def example_ancestors)

lemma example_fields [simp]:
  "nHeight (example_block3 bits s1 s2) = 3"
  "nBits (example_block3 bits s1 s2) = bits"
  "nBits (example_block2 bits s1) = bits"
  "GetBlockTime (example_block3 bits s1 s2) = 1010 + s1 + s2"
  "GetBlockTime (example_block2 bits s1) = 1010 + s1"
  "GetBlockTime (example_block1 bits) = 1010"
  by (simp_all add: example_block3_def example_block2_def example_block1_def GetBlockTime_def)

lemma params0_fields [simp]:
  "lwmaAveragingWindow params0 = 2" "nPowTargetSpacing params0 = 10"
  "fPowNoRetargeting params0 = False" "fPoSNoRetargeting params0 = False"
  "powLimit params0 = 0xFFFF0000000000000000000000000000000000000000000000000000"
  "posLimit params0 = 0xFFFF0000000000000000000000000000000000000000000000000000"
  by (simp_all add: params0_def)

lemma example_k: "cdiv (2 * (2 + 1) * 10) 2 = 30"
  by (simp add: cdiv_def)

lemma SetCompact_1c00ffff:
  "SetCompact arith_compact 0x1c00ffff
     = (0xFFFF00000000000000000000000000000000000000000000000000, False, False)"
  by (simp add: arith_compact_def arith_SetCompact_def)

lemma example_targets_limit:
  "window_targets arith_compact 2 30
     [example_block2 0x1d00ffff s1, example_block3 0x1d00ffff s1 s2]
   = 898651176367043649771882544824133044533696624619138802871259103232"
  by (simp add: arith_of_int64_def window_targets_def DecodeCompact_def SetCompact_1d00ffff)

lemma example_targets:
  "window_targets arith_compact 2 30
     [example_block2 0x1c00ffff s1, example_block3 0x1c00ffff s1 s2]
   = 3510356157683764256921416190719269705209752439918510948715855872"
  by (simp add: arith_of_int64_def window_targets_def DecodeCompact_def SetCompact_1c00ffff)

lemma example_nz: "arith_of_int64 2 \<noteq> 0" "arith_of_int64 30 \<noteq> 0"
  by (simp_all add: arith_of_int64_def)

lemma example_nextTarget:
  "Lwma3_nextTarget arith_compact (example_block3 bits s1 s2) params0
     [(1, 3), (2, 2), (3, 1)] ProofLimit
   = Inr (let t = arith_mul
                    (window_targets arith_compact 2 30
                       [example_block2 bits s1, example_block3 bits s1 s2])
                    (weighted_sum 0 (solvetimes 10 1010 [1010 + s1, 1010 + s1 + s2]))
          in if t > ProofLimit then ProofLimit else t)"
  using Lwma3_nextTarget_complete [OF params0_fields(1) params0_fields(2) example_k
      example_window example_nz, where C = arith_compact and ProofLimit = ProofLimit]
  by (simp del: solvetimes.simps weighted_sum.simps)

lemma hybrid_context: "GetContextLWMA (Some hybrid_tip) 3 False = [(1, 3), (2, 1)]"
  by (simp add: hybrid_tip_def hybrid_block2_def example_block1_def genesis0_def
      GetContextLWMA_def IsProofOfWork_def map_insert_def)


lemma example_chain_ok: "chain_ok (example_block3 bits s1 s2)"
  by (simp add: chain_ok.simps example_block3_def example_block2_def example_block1_def
      genesis0_def)

lemma example_kind_blocks:
  "kind_blocks IsProofOfWork (Some (example_block3 bits s1 s2))
     = [example_block3 bits s1 s2, example_block2 bits s1, example_block1 bits]"
  by (simp add: example_block3_def example_block2_def example_block1_def genesis0_def
      IsProofOfWork_def)

text \<open>
  Witness of C5: on the chain of a genesis block and one block, with \<open>N = 2\<close>, either
  proof kind gets the encoding \<open>0x1d00ffff\<close> of its limit.
\<close>

theorem Lwma3_bootstrap_witness:
  "Lwma3CalculateNextWorkRequired arith_compact stake_tip params0 True = Inr 0x1d00ffff
   \<and> Lwma3CalculateNextWorkRequired arith_compact stake_tip params0 False = Inr 0x1d00ffff"
  using Lwma3_bootstrap [of params0 stake_tip arith_compact True]
    Lwma3_bootstrap [of params0 stake_tip arith_compact False]
  by (simp add: stake_tip_def UintToArith256_def GetCompact_limit)



text \<open>
  Witness of C4: the proof-of-work chain of four blocks with block times 1010, 1005,
  1100 above the genesis block, \<open>N = 2\<close> and \<open>T = 10\<close>. The window is blocks 2 and 3,
  the second time is raised to 1011, the solve times are 1 and 60 (89 capped), and the
  weighted sum is \<open>1 * 1 + 2 * 60 = 121\<close>.
\<close>

theorem Lwma3_weighted_solvetimes_witness:
  "chain_ok (example_block3 0x1c00ffff (- 5) 95)
   \<and> kind_blocks IsProofOfWork (Some (example_block3 0x1c00ffff (- 5) 95))
       = [example_block3 0x1c00ffff (- 5) 95, example_block2 0x1c00ffff (- 5),
          example_block1 0x1c00ffff]
   \<and> map GetBlockTime [example_block1 0x1c00ffff, example_block2 0x1c00ffff (- 5),
         example_block3 0x1c00ffff (- 5) 95] = [1010, 1005, 1100]
   \<and> solvetimes 10 1010 [1005, 1100] = [1, 60]
   \<and> Lwma3CalculateNextWorkRequired arith_compact (example_block3 0x1c00ffff (- 5) 95)
         params0 False
       = Inr (GetCompact arith_compact
           (3510356157683764256921416190719269705209752439918510948715855872 * 121))"
proof -
  let ?tip = "example_block3 0x1c00ffff (- 5) 95"
  let ?kb = "[?tip, example_block2 0x1c00ffff (- 5), example_block1 0x1c00ffff]"
  have kb: "?kb = kind_blocks (if False then IsProofOfStake else IsProofOfWork) (Some ?tip)"
    by (simp only: example_kind_blocks if_False)
  have sum: "(\<Sum>idx<nat 2. (int idx + 1) * [1, 60 :: int] ! idx) = 121"
    by (simp add: numeral_2_eq_2)
  have tk: "rev (take (nat 2) ?kb) = [example_block2 0x1c00ffff (- 5), ?tip]"
    by (simp add: numeral_2_eq_2)
  have nth: "?kb ! nat 2 = example_block1 0x1c00ffff"
    by (simp add: numeral_2_eq_2)
  have times: "map GetBlockTime [example_block2 0x1c00ffff (- 5), ?tip] = [1005, 1100]"
    by simp
  have st: "solvetimes 10 1010 [1005, 1100] = [1, 60]"
    by simp
  have flags: "\<not> fPowNoRetargeting params0" "\<not> fPoSNoRetargeting params0"
    by simp_all
  have N: "2 = lwmaAveragingWindow params0" and T: "10 = nPowTargetSpacing params0"
    by simp_all
  have k: "30 = cdiv (2 * (2 + 1) * 10) 2"
    by (simp add: cdiv_def)
  have limit: "0xFFFF0000000000000000000000000000000000000000000000000000
                 = UintToArith256 (if False then posLimit params0 else powLimit params0)"
    by (simp add: UintToArith256_def)
  have full: "2 + 1 \<le> int (length ?kb)"
    by simp
  have below: "\<not> (3510356157683764256921416190719269705209752439918510948715855872 * 121
                  > (0xFFFF0000000000000000000000000000000000000000000000000000 :: arith_uint256))"
    by simp
  note run = Lwma3_weighted_solvetimes [where C = arith_compact,
      OF example_chain_ok flags N T k limit _ kb full example_nz,
      unfolded Let_def, THEN conjunct1]
  have "Lwma3CalculateNextWorkRequired arith_compact ?tip params0 False
       = Inr (GetCompact arith_compact
           (3510356157683764256921416190719269705209752439918510948715855872 * 121))"
    using run [unfolded tk nth times example_fields st sum example_targets] below
    by (simp add: arith_mul_def)
  then show ?thesis
    using example_chain_ok [of "0x1c00ffff" "- 5" 95] example_kind_blocks [of "0x1c00ffff" "- 5" 95]
    by simp
qed


text \<open>
  Counterexample to C8 as stated (\<open>T = 10\<close>, \<open>N = 2\<close>). Two windows of blocks at the
  proof limit, with solve times 20 then 10 in one and 10 then 20 in the other: both
  next targets exceed the limit and are replaced by it. And two windows of harder blocks
  with solve times 80 then 70 and 70 then 80: all four are capped at 60, the weighted
  sums are both 180, and the targets are the same. In neither pair does the window with
  the longer recent solve time get a strictly larger target.
\<close>

theorem Lwma3_recent_long_counterexample:
  "Lwma3CalculateNextWorkRequired arith_compact (example_block3 0x1d00ffff 20 10) params0 False
     = Inr 0x1d00ffff
   \<and> Lwma3CalculateNextWorkRequired arith_compact (example_block3 0x1d00ffff 10 20) params0 False
     = Inr 0x1d00ffff
   \<and> Lwma3CalculateNextWorkRequired arith_compact (example_block3 0x1c00ffff 80 70) params0 False
     = Inr (GetCompact arith_compact
              (3510356157683764256921416190719269705209752439918510948715855872 * 180))
   \<and> Lwma3CalculateNextWorkRequired arith_compact (example_block3 0x1c00ffff 70 80) params0 False
     = Inr (GetCompact arith_compact
              (3510356157683764256921416190719269705209752439918510948715855872 * 180))"
  by (simp add: Lwma3CalculateNextWorkRequired_def example_context map_size_def
      UintToArith256_def example_nextTarget example_targets_limit example_targets
      arith_mul_def GetCompact_limit)


text \<open>
  Witness of the amended C8: the same two windows with harder blocks (\<open>0x1c00ffff\<close>).
  The weighted sums are 40 and 50, the targets are below the limit, and the window with
  the longer recent solve time gets the strictly larger one.
\<close>

theorem Lwma3_recent_long_easier_witness:
  "Lwma3CalculateNextWorkRequired arith_compact (example_block3 0x1c00ffff 20 10) params0 False
     = Inr (GetCompact arith_compact
              140414246307350570276856647628770788208390097596740437948634234880)
   \<and> Lwma3CalculateNextWorkRequired arith_compact (example_block3 0x1c00ffff 10 20) params0 False
     = Inr (GetCompact arith_compact
              175517807884188212846070809535963485260487621995925547435792793600)
   \<and> (140414246307350570276856647628770788208390097596740437948634234880 :: arith_uint256)
       < 175517807884188212846070809535963485260487621995925547435792793600"
proof -
  let ?old = "example_block3 0x1c00ffff 20 10" and ?new = "example_block3 0x1c00ffff 10 20"
  let ?kbOld = "[?old, example_block2 0x1c00ffff 20, example_block1 0x1c00ffff]"
  let ?kbNew = "[?new, example_block2 0x1c00ffff 10, example_block1 0x1c00ffff]"
  let ?limit = "0xFFFF0000000000000000000000000000000000000000000000000000 :: arith_uint256"
  have kbOld: "?kbOld = kind_blocks (if False then IsProofOfStake else IsProofOfWork) (Some ?old)"
    by (simp only: example_kind_blocks if_False)
  have kbNew: "?kbNew = kind_blocks (if False then IsProofOfStake else IsProofOfWork) (Some ?new)"
    by (simp only: example_kind_blocks if_False)
  have flags: "\<not> fPowNoRetargeting params0" "\<not> fPoSNoRetargeting params0"
    by simp_all
  have N: "2 = lwmaAveragingWindow params0" and T: "10 = nPowTargetSpacing params0"
    by simp_all
  have k: "30 = cdiv (2 * (2 + 1) * 10) 2"
    by (simp add: cdiv_def)
  have limit: "?limit = UintToArith256 (if False then posLimit params0 else powLimit params0)"
    by (simp add: UintToArith256_def)
  have tkOld: "rev (take (nat 2) ?kbOld) = [example_block2 0x1c00ffff 20, ?old]"
    and tkNew: "rev (take (nat 2) ?kbNew) = [example_block2 0x1c00ffff 10, ?new]"
    and nth: "?kbOld ! nat 2 = example_block1 0x1c00ffff"
      "?kbNew ! nat 2 = example_block1 0x1c00ffff"
    by (simp_all add: numeral_2_eq_2)
  have "\<exists>targetOld targetNew.
           Lwma3_nextTarget arith_compact ?old params0
               (GetContextLWMA (Some ?old) (2 + 1) False) ?limit = Inr targetOld
         \<and> Lwma3_nextTarget arith_compact ?new params0
               (GetContextLWMA (Some ?new) (2 + 1) False) ?limit = Inr targetNew
         \<and> Lwma3CalculateNextWorkRequired arith_compact ?old params0 False
              = Inr (GetCompact arith_compact targetOld)
         \<and> Lwma3CalculateNextWorkRequired arith_compact ?new params0 False
              = Inr (GetCompact arith_compact targetNew)
         \<and> targetOld \<le> targetNew
         \<and> (targetOld < targetNew \<longleftrightarrow>
              window_targets arith_compact 2 30 (rev (take (nat 2) ?kbNew)) \<noteq> 0
              \<and> sum_list (map (min (6 * 10)) [10]) < sum_list (map (min (6 * 10)) [20 :: int])
              \<and> targetOld < ?limit)"
  proof (rule Lwma3_recent_long_easier [where startTime = 1010,
        OF example_chain_ok example_chain_ok flags N T k limit kbOld kbNew])
    show "map GetBlockTime (rev (take (nat 2) ?kbOld)) = cumulative_times 1010 ([20] @ [10])"
      unfolding tkOld by simp
    show "map GetBlockTime (rev (take (nat 2) ?kbNew)) = cumulative_times 1010 ([10] @ [20])"
      unfolding tkNew by simp
    show "map nBits (rev (take (nat 2) ?kbOld)) = map nBits (rev (take (nat 2) ?kbNew))"
      unfolding tkOld tkNew by simp
    show "unat (window_targets arith_compact 2 30 (rev (take (nat 2) ?kbNew)))
            * nat (weighted_sum 0 (map (min (6 * 10)) ([10] @ [20]))) < 2 ^ 256"
      unfolding tkNew by (simp add: example_targets)
    show "GetBlockTime (?kbOld ! nat 2) = 1010" "GetBlockTime (?kbNew ! nat 2) = 1010"
      unfolding nth by simp_all
  qed (simp_all add: example_nz)
  then obtain targetOld targetNew where
    old: "Lwma3_nextTarget arith_compact ?old params0
            (GetContextLWMA (Some ?old) (2 + 1) False) ?limit = Inr targetOld"
    and new: "Lwma3_nextTarget arith_compact ?new params0
            (GetContextLWMA (Some ?new) (2 + 1) False) ?limit = Inr targetNew"
    and callOld: "Lwma3CalculateNextWorkRequired arith_compact ?old params0 False
                    = Inr (GetCompact arith_compact targetOld)"
    and callNew: "Lwma3CalculateNextWorkRequired arith_compact ?new params0 False
                    = Inr (GetCompact arith_compact targetNew)"
    and strict: "targetOld < targetNew \<longleftrightarrow>
              window_targets arith_compact 2 30 (rev (take (nat 2) ?kbNew)) \<noteq> 0
              \<and> sum_list (map (min (6 * 10)) [10]) < sum_list (map (min (6 * 10)) [20 :: int])
              \<and> targetOld < ?limit"
    by blast
  have vOld: "targetOld = 140414246307350570276856647628770788208390097596740437948634234880"
    using old by (simp add: example_context example_nextTarget example_targets arith_mul_def)
  have vNew: "targetNew = 175517807884188212846070809535963485260487621995925547435792793600"
    using new by (simp add: example_context example_nextTarget example_targets arith_mul_def)
  have "targetOld < targetNew"
    unfolding strict tkNew by (simp add: example_targets vOld)
  then show ?thesis
    using callOld callNew unfolding vOld vNew by simp
qed

text \<open>
  C1, at an input where it fails. A proof-of-work call with \<open>N = 2\<close> on a chain of
  height 3 whose block 2 is a proof-of-stake block: the window holds two proof-of-work
  blocks, the key \<open>N + 1 = 3\<close> is missing, and \<open>mapContext.at(N + 1)\<close> throws. Only the
  proof-of-stake branch has a fallback for a short window.
\<close>

theorem Lwma3_short_pow_window_throws:
  "Lwma3CalculateNextWorkRequired C hybrid_tip params0 False = Inl OutOfRange"
  by (simp add: Lwma3CalculateNextWorkRequired_def Lwma3_nextTarget_def hybrid_context
      map_at_def Let_def)
     (simp add: hybrid_tip_def)


text \<open>
  C2, at an input where it fails. A proof-of-stake call with \<open>fPoSNoRetargeting\<close> clear:
  setting \<open>fPowNoRetargeting\<close>, the flag of the other kind, changes the result from the
  bootstrap target to the bits of the last proof-of-stake block.
\<close>

theorem Lwma3_other_flag_changes_result:
  "Lwma3CalculateNextWorkRequired arith_compact stake_tip
       (params0\<lparr>fPowNoRetargeting := True\<rparr>) True = Inr 0x1c00ffff
   \<and> Lwma3CalculateNextWorkRequired arith_compact stake_tip params0 True = Inr 0x1d00ffff"
  by (simp add: Lwma3CalculateNextWorkRequired_def stake_tip_def genesis0_def
      IsProofOfStake_def UintToArith256_def GetCompact_limit)

subsection \<open>Where the window lookups succeed\<close>

text \<open>
  The keys of the map that \<open>GetContextLWMA\<close> builds are \<open>1, \<dots>, n'\<close> without gaps, and
  while \<open>n'\<close> stays within the scope, \<open>n'\<close> is the number of blocks of the kind that the
  walk can reach.
\<close>

lemma CountPoSLoop_le:
  "CountPoSLoop pindex nHeightScan nFound
     \<le> nFound + int (kind_count IsProofOfStake pindex)"
proof (induction pindex nHeightScan nFound rule: CountPoSLoop.induct)
  case (1 nHeightScan nFound)
  then show ?case by simp
next
  case (2 b nHeightScan nFound)
  show ?case
  proof (cases "pprev b")
    case None
    then show ?thesis by simp
  next
    case (Some p)
    show ?thesis
    proof (cases "nHeight b > nHeightScan")
      case True
      from "2.IH" [OF Some True] Some True show ?thesis
        by (simp split: if_splits)
    next
      case False
      with Some show ?thesis by simp
    qed
  qed
qed

lemma map_insert_keys:
  assumes "map fst m = map int [1..<Suc n]"
  shows "map fst (map_insert m (int n + 1) v) = map int [1..<Suc (Suc n)]"
proof -
  have "int n + 1 \<notin> set (map fst m)"
    unfolding assms by auto
  then have "map_of m (int n + 1) = None"
    by (simp add: map_of_eq_None_iff)
  then show ?thesis
    using assms by (simp add: map_insert_def)
qed

lemma ContextLoop_keys:
  "map fst m = map int [1..<Suc n] \<Longrightarrow> nIdx = int n \<Longrightarrow>
   \<exists>n'. map fst (ContextLoop isKind pindex nContextScope nIdx m) = map int [1..<Suc n']
      \<and> (int n' \<le> nContextScope \<longrightarrow> n' = n + kind_count isKind pindex)"
proof (induction isKind pindex nContextScope nIdx m arbitrary: n rule: ContextLoop.induct)
  case (1 isKind nContextScope nIdx mapRet)
  then show ?case
    by (intro exI [of _ n]) simp
next
  case (2 isKind b nContextScope nIdx mapRet)
  show ?case
  proof (cases "pprev b")
    case None
    have "ContextLoop isKind (Some b) nContextScope nIdx mapRet = mapRet"
      by (subst ContextLoop.simps(2)) (simp only: None option.case)
    moreover have "kind_count isKind (Some b) = 0"
      by (subst kind_count.simps(2)) (simp only: None option.case)
    ultimately show ?thesis
      using "2.prems"(1) by (intro exI [of _ n]) (simp del: ContextLoop.simps kind_count.simps)
  next
    case (Some p)
    have loop: "ContextLoop isKind (Some b) nContextScope nIdx mapRet =
        (if nIdx \<le> nContextScope
         then (if isKind b
               then ContextLoop isKind (Some p) nContextScope (nIdx + 1)
                      (map_insert mapRet (nIdx + 1) (nHeight b))
               else ContextLoop isKind (Some p) nContextScope nIdx mapRet)
         else mapRet)"
      by (subst ContextLoop.simps(2)) (simp only: Some option.case)
    have count: "kind_count isKind (Some b)
                   = (if isKind b then 1 else 0) + kind_count isKind (Some p)"
      by (subst kind_count.simps(2)) (simp only: Some option.case)
    show ?thesis
    proof (cases "nIdx \<le> nContextScope")
      case False
      then have "ContextLoop isKind (Some b) nContextScope nIdx mapRet = mapRet"
        by (simp only: loop if_False)
      moreover have "\<not> int n \<le> nContextScope"
        using False "2.prems"(2) by simp
      ultimately show ?thesis
        using "2.prems"(1) by (intro exI [of _ n]) (simp del: ContextLoop.simps kind_count.simps)
    next
      case True
      show ?thesis
      proof (cases "isKind b")
        case kind: True
        have keys: "map fst (map_insert mapRet (nIdx + 1) (nHeight b)) = map int [1..<Suc (Suc n)]"
          using map_insert_keys [OF "2.prems"(1)] "2.prems"(2) by simp
        have idx: "nIdx + 1 = int (Suc n)"
          using "2.prems"(2) by simp
        from "2.IH"(1) [OF Some True kind keys idx] obtain n' where
          "map fst (ContextLoop isKind (Some p) nContextScope (nIdx + 1)
                      (map_insert mapRet (nIdx + 1) (nHeight b))) = map int [1..<Suc n']"
          "int n' \<le> nContextScope \<longrightarrow> n' = Suc n + kind_count isKind (Some p)"
          by blast
        moreover have "ContextLoop isKind (Some b) nContextScope nIdx mapRet
            = ContextLoop isKind (Some p) nContextScope (nIdx + 1)
                (map_insert mapRet (nIdx + 1) (nHeight b))"
          using True kind by (simp only: loop if_True)
        moreover have "kind_count isKind (Some b) = Suc (kind_count isKind (Some p))"
          using kind by (simp only: count if_True plus_1_eq_Suc)
        ultimately show ?thesis
          by (intro exI [of _ n']) (simp del: ContextLoop.simps kind_count.simps)
      next
        case nokind: False
        from "2.IH"(2) [OF Some True nokind "2.prems"] obtain n' where
          "map fst (ContextLoop isKind (Some p) nContextScope nIdx mapRet) = map int [1..<Suc n']"
          "int n' \<le> nContextScope \<longrightarrow> n' = n + kind_count isKind (Some p)"
          by blast
        moreover have "ContextLoop isKind (Some b) nContextScope nIdx mapRet
            = ContextLoop isKind (Some p) nContextScope nIdx mapRet"
          using True nokind by (simp only: loop if_True if_False)
        moreover have "kind_count isKind (Some b) = kind_count isKind (Some p)"
          using nokind by (simp only: count if_False add_0)
        ultimately show ?thesis
          by (intro exI [of _ n']) (simp del: ContextLoop.simps kind_count.simps)
      qed
    qed
  qed
qed

lemma keys_lookup:
  assumes "map fst m = map int [1..<Suc n]"
  shows "map_of m i \<noteq> None \<longleftrightarrow> 1 \<le> i \<and> i \<le> int n"
proof -
  have "map_of m i \<noteq> None \<longleftrightarrow> i \<in> set (map fst m)"
    by (simp add: map_of_eq_None_iff)
  also have "\<dots> \<longleftrightarrow> i \<in> int ` {1..<Suc n}"
    by (simp only: assms set_map set_upt)
  also have "\<dots> \<longleftrightarrow> 1 \<le> i \<and> i \<le> int n"
  proof
    assume "i \<in> int ` {1..<Suc n}"
    then show "1 \<le> i \<and> i \<le> int n" by auto
  next
    assume "1 \<le> i \<and> i \<le> int n"
    then have "nat i \<in> {1..<Suc n}" "i = int (nat i)" by auto
    then show "i \<in> int ` {1..<Suc n}" by (rule_tac image_eqI [of _ _ "nat i"]) simp_all
  qed
  finally show ?thesis .
qed

lemma Lwma3_loop_no_OutOfRange:
  "(\<And>x. 1 \<le> x \<Longrightarrow> x \<le> i \<Longrightarrow> map_of m x \<noteq> None) \<Longrightarrow>
   Lwma3_loop C tip m T N k i prev s j avg \<noteq> Inl OutOfRange"
proof (induction C tip m T N k i prev s j avg rule: Lwma3_loop.induct)
  case (1 C tip m T N k i prev s j avg)
  show ?case
  proof (cases "i > 0")
    case False
    then show ?thesis by (simp add: Lwma3_loop.simps)
  next
    case True
    with "1.prems" [of i] obtain h where h: "map_at m i = Inr h"
      by (auto simp: map_at_def split: option.splits)
    show ?thesis
    proof (cases "GetAncestor tip h")
      case None
      with True h show ?thesis by (simp add: Lwma3_loop.simps)
    next
      case (Some block)
      show ?thesis
      proof (cases "arith_div (DecodeCompact C (nBits block)) N")
        case (Inl e)
        then have "e = DivisionByZero"
          by (auto simp: arith_div_def Let_def split: if_splits)
        with True h Some Inl show ?thesis by (simp add: Lwma3_loop.simps)
      next
        case q: (Inr q)
        show ?thesis
        proof (cases "arith_div q k")
          case (Inl e)
          then have "e = DivisionByZero"
            by (auto simp: arith_div_def Let_def split: if_splits)
          with True h Some q Inl show ?thesis by (simp add: Lwma3_loop.simps Let_def)
        next
          case q': (Inr q')
          have keys: "\<And>x. 1 \<le> x \<Longrightarrow> x \<le> i - 1 \<Longrightarrow> map_of m x \<noteq> None"
            using "1.prems" by simp
          note IH = "1.IH" [OF True h Some refl refl refl refl q q' keys]
          show ?thesis
            using True h Some q q' IH by (subst Lwma3_loop.simps) (simp add: Let_def)
        qed
      qed
    qed
  qed
qed

lemma Lwma3_ppcoinEMA_no_OutOfRange:
  "Lwma3_ppcoinEMA C pindexLast params fProofOfStake ProofLimit \<noteq> Inl OutOfRange"
proof -
  have div: "(case arith_div a x of Inl e \<Rightarrow> Inl e | Inr bn \<Rightarrow> Inr (f bn)) \<noteq> Inl OutOfRange"
    for a x and f :: "arith_uint256 \<Rightarrow> uint32"
    by (simp add: arith_div_def Let_def)
  show ?thesis
    unfolding Lwma3_ppcoinEMA_def Let_def
    by (simp add: div del: GetLastBlockIndex.simps split: option.split)
qed

text \<open>
  The lookups \<open>mapContext.at(N + 1)\<close> and \<open>mapContext.at(i)\<close> find their key in every
  proof-of-stake call, and in every proof-of-work call on a chain with at least \<open>N + 1\<close>
  proof-of-work blocks that have a predecessor: there the call never ends in
  \<open>std::out_of_range\<close>. The short proof-of-work window of the example above is the
  case that is left.
\<close>

theorem Lwma3_no_OutOfRange:
  assumes N: "0 \<le> lwmaAveragingWindow params" "lwmaAveragingWindow params + 1 < 2 ^ 64"
    and kind: "fProofOfStake
               \<or> lwmaAveragingWindow params + 1 \<le> int (kind_count IsProofOfWork (Some pindexLast))"
  shows "Lwma3CalculateNextWorkRequired C pindexLast params fProofOfStake \<noteq> Inl OutOfRange"
proof -
  let ?N = "lwmaAveragingWindow params"
  let ?isKind = "if fProofOfStake then IsProofOfStake else IsProofOfWork"
  let ?ctx = "GetContextLWMA (Some pindexLast) (?N + 1) fProofOfStake"
  let ?limit = "UintToArith256 (if fProofOfStake then posLimit params else powLimit params)"
  have ctx: "?ctx = ContextLoop ?isKind (Some pindexLast) (?N + 1) 0 []"
    by (simp add: GetContextLWMA_def)
  from ContextLoop_keys [of "[]" 0 0 ?isKind "Some pindexLast" "?N + 1"] obtain n' where
    keys: "map fst ?ctx = map int [1..<Suc n']"
    and count: "int n' \<le> ?N + 1 \<longrightarrow> n' = kind_count ?isKind (Some pindexLast)"
    unfolding ctx by auto
  have "length (map fst ?ctx) = n'"
    unfolding keys by simp
  then have size: "map_size ?ctx = int n'"
    by (simp add: map_size_def)
  have mod: "(?N + 1) mod 2 ^ 64 = ?N + 1"
    using N by simp
  have main: "Lwma3_nextTarget C pindexLast params ?ctx ?limit \<noteq> Inl OutOfRange"
    if full: "?N + 1 \<le> int n'"
  proof -
    have present: "map_of ?ctx x \<noteq> None" if "1 \<le> x" "x \<le> ?N + 1" for x
      using keys_lookup [OF keys, of x] that full by simp
    from present [of "?N + 1"] N(1) obtain h where h: "map_at ?ctx (?N + 1) = Inr h"
      by (auto simp: map_at_def split: option.splits)
    show ?thesis
    proof (cases "GetAncestor pindexLast h")
      case None
      with h show ?thesis by (simp add: Lwma3_nextTarget_def Let_def)
    next
      case (Some b)
      have "Lwma3_loop C pindexLast ?ctx (nPowTargetSpacing params) ?N
              (cdiv (?N * (?N + 1) * nPowTargetSpacing params) 2) ?N (GetBlockTime b) 0 0 0
            \<noteq> Inl OutOfRange"
        by (rule Lwma3_loop_no_OutOfRange) (simp add: present)
      with h Some show ?thesis
        by (auto simp: Lwma3_nextTarget_def Let_def split: sum.splits)
    qed
  qed
  have short: "CountPoS (Some pindexLast) 0 \<le> ?N + 1" if "fProofOfStake" "int n' < ?N + 1"
  proof -
    from that count have "n' = kind_count IsProofOfStake (Some pindexLast)"
      by simp
    moreover have "CountPoS (Some pindexLast) 0
                     \<le> 0 + int (kind_count IsProofOfStake (Some pindexLast))"
      unfolding CountPoS_def by (rule CountPoSLoop_le)
    ultimately show ?thesis
      using that(2) by simp
  qed
  have full_pow: "?N + 1 \<le> int n'" if "\<not> fProofOfStake"
  proof (rule ccontr)
    assume "\<not> ?N + 1 \<le> int n'"
    with count that have "n' = kind_count IsProofOfWork (Some pindexLast)"
      by simp
    with kind that \<open>\<not> ?N + 1 \<le> int n'\<close> show False
      by simp
  qed
  show ?thesis
  proof (cases "fPowNoRetargeting params \<or> fPoSNoRetargeting params")
    case True
    then show ?thesis
      by (auto simp: Lwma3CalculateNextWorkRequired_def split: option.splits)
  next
    case False
    show ?thesis
    proof (cases "nHeight pindexLast < ?N + 1")
      case True
      with False show ?thesis
        by (simp add: Lwma3CalculateNextWorkRequired_def Let_def)
    next
      case high: False
      show ?thesis
      proof (cases "fProofOfStake \<and> int n' < ?N + 1")
        case True
        with short have "CountPoS (Some pindexLast) 0 \<le> ?N + 1"
          by simp
        with True False high size mod show ?thesis
          by (simp add: Lwma3CalculateNextWorkRequired_def Let_def
              Lwma3_ppcoinEMA_no_OutOfRange)
      next
        case noshort: False
        then have full: "?N + 1 \<le> int n'"
          using full_pow by (cases fProofOfStake) simp_all
        from main [OF full] have
          "(case Lwma3_nextTarget C pindexLast params ?ctx ?limit of
              Inl e \<Rightarrow> Inl e | Inr nextTarget \<Rightarrow> Inr (GetCompact C nextTarget))
           \<noteq> Inl OutOfRange"
          by (cases "Lwma3_nextTarget C pindexLast params ?ctx ?limit") simp_all
        with False high full size mod show ?thesis
          by (simp add: Lwma3CalculateNextWorkRequired_def Let_def)
      qed
    qed
  qed
qed

text \<open>
  The previous theorem at the proof-of-work chain of four blocks with \<open>N = 2\<close>, which has
  three proof-of-work blocks with a predecessor.
\<close>

theorem Lwma3_no_OutOfRange_witness:
  "0 \<le> lwmaAveragingWindow params0 \<and> lwmaAveragingWindow params0 + 1 < 2 ^ 64
   \<and> lwmaAveragingWindow params0 + 1
        \<le> int (kind_count IsProofOfWork (Some (example_block3 0x1c00ffff 10 20)))
   \<and> Lwma3CalculateNextWorkRequired arith_compact (example_block3 0x1c00ffff 10 20) params0 False
        \<noteq> Inl OutOfRange"
proof -
  have count: "kind_count IsProofOfWork (Some (example_block3 0x1c00ffff 10 20)) = 3"
    by (simp add: example_block3_def example_block2_def example_block1_def genesis0_def
        IsProofOfWork_def)
  from Lwma3_no_OutOfRange [of params0 False "example_block3 0x1c00ffff 10 20" arith_compact]
  show ?thesis
    by (simp add: count del: kind_count.simps)
qed

subsection \<open>The governing flag\<close>

text \<open>
  \<open>GetLastBlockIndex\<close> always finds a block from a non-null start: a block of the kind, or
  the block without a predecessor.
\<close>

lemma GetLastBlockIndex_Some:
  "\<exists>b. GetLastBlockIndex (Some pindex) fProofOfStake = Some b
       \<and> (IsProofOfStake b = fProofOfStake \<or> pprev b = None)"
proof (induction pindex rule: CBlockIndex.induct)
  case (CBlockIndex prev h k t bits hash)
  show ?case
  proof (cases prev)
    case None
    then show ?thesis by simp
  next
    case (Some p)
    then have "\<exists>b. GetLastBlockIndex (Some p) fProofOfStake = Some b
       \<and> (IsProofOfStake b = fProofOfStake \<or> pprev b = None)"
      using CBlockIndex.IH by simp
    with Some show ?thesis by auto
  qed
qed

text \<open>
  With the flag of the given proof kind set, \<open>Lwma3CalculateNextWorkRequired\<close> returns the
  bits of the block that \<open>GetLastBlockIndex\<close> finds from the tip, and
  \<open>CalculateNextWorkRequired\<close> returns the bits of the block it is given.
\<close>

theorem no_retargeting_flag_set:
  assumes "if fProofOfStake then fPoSNoRetargeting params else fPowNoRetargeting params"
  shows "(\<exists>b. GetLastBlockIndex (Some pindexLast) fProofOfStake = Some b
            \<and> (IsProofOfStake b = fProofOfStake \<or> pprev b = None)
            \<and> Lwma3CalculateNextWorkRequired C pindexLast params fProofOfStake = Inr (nBits b))
       \<and> CalculateNextWorkRequired C pindexLast nFirstBlockTime params fProofOfStake
            = Inr (nBits pindexLast)"
proof -
  from GetLastBlockIndex_Some [of pindexLast fProofOfStake] obtain b where
    b: "GetLastBlockIndex (Some pindexLast) fProofOfStake = Some b"
    "IsProofOfStake b = fProofOfStake \<or> pprev b = None"
    by blast
  have either: "fPowNoRetargeting params \<or> fPoSNoRetargeting params"
    using assms by (cases fProofOfStake) simp_all
  have "Lwma3CalculateNextWorkRequired C pindexLast params fProofOfStake = Inr (nBits b)"
    using either b(1) by (simp add: Lwma3CalculateNextWorkRequired_def)
  moreover have "CalculateNextWorkRequired C pindexLast nFirstBlockTime params fProofOfStake
            = Inr (nBits pindexLast)"
    using assms by (simp add: CalculateNextWorkRequired_def)
  ultimately show ?thesis
    using b by blast
qed

text \<open>
  The previous theorem at a proof-of-stake call on the chain of a genesis block and one
  proof-of-stake block, with \<open>fPoSNoRetargeting\<close> set.
\<close>

theorem no_retargeting_flag_set_witness:
  "fPoSNoRetargeting (params0\<lparr>fPoSNoRetargeting := True\<rparr>)
   \<and> Lwma3CalculateNextWorkRequired arith_compact stake_tip
        (params0\<lparr>fPoSNoRetargeting := True\<rparr>) True = Inr 0x1c00ffff
   \<and> CalculateNextWorkRequired arith_compact stake_tip 0
        (params0\<lparr>fPoSNoRetargeting := True\<rparr>) True = Inr 0x1c00ffff"
proof -
  have last: "GetLastBlockIndex (Some stake_tip) True = Some stake_tip"
    by (simp add: stake_tip_def IsProofOfStake_def)
  have bits: "nBits stake_tip = 0x1c00ffff"
    by (simp add: stake_tip_def)
  from no_retargeting_flag_set [of True "params0\<lparr>fPoSNoRetargeting := True\<rparr>" stake_tip
      arith_compact 0]
  show ?thesis
    by (simp add: last bits del: GetLastBlockIndex.simps)
qed

text \<open>
  \<open>CalculateNextWorkRequired\<close> reads only the flag of the given proof kind: the value of
  the other flag never changes its result.
\<close>

theorem CalculateNextWorkRequired_other_flag:
  "CalculateNextWorkRequired C pindexLast nFirstBlockTime
       (params\<lparr>fPowNoRetargeting := v\<rparr>) True
     = CalculateNextWorkRequired C pindexLast nFirstBlockTime params True
   \<and> CalculateNextWorkRequired C pindexLast nFirstBlockTime
       (params\<lparr>fPoSNoRetargeting := v\<rparr>) False
     = CalculateNextWorkRequired C pindexLast nFirstBlockTime params False"
  by (simp add: CalculateNextWorkRequired_def TargetSpacing_def GetLimit_def
      DifficultyAdjustmentInterval_def TargetTimespan_def StakeTimestampMask_def
      Let_def split del: if_split cong: if_cong sum.case_cong)

section \<open>Legacy retargeting\<close>

text \<open>
  C7, amended. With the governing flag clear, \<open>CalculateNextWorkRequired\<close> replaces a
  negative actual spacing by the target spacing (not by 0) and caps the spacing at
  \<open>10 * targetSpacing\<close> below the height threshold and at \<open>20 * targetSpacing\<close> from it
  on, so that for a non-negative target spacing the spacing used lies in
  \<open>[0, 10 * targetSpacing]\<close> or \<open>[0, 20 * targetSpacing]\<close>. Below the threshold the
  target is multiplied by \<open>(interval - 1) * T + 2 * actualSpacing\<close> and divided by
  \<open>(interval + 1) * T\<close>; from the threshold on it goes through \<open>mul_exp\<close>. In both
  cases a result that is zero or above the limit is replaced by the limit.
\<close>

theorem CalculateNextWorkRequired_legacy:
  fixes C :: compact_codec and nFirstBlockTime :: int
  assumes flag: "\<not> (if fProofOfStake then fPoSNoRetargeting params else fPowNoRetargeting params)"
    and interval: "DifficultyAdjustmentInterval params (nHeight pindexLast + 1) = Inr nInterval"
  defines "h \<equiv> nHeight pindexLast + 1"
  defines "T \<equiv> TargetSpacing params h"
    and "x \<equiv> GetBlockTime pindexLast - nFirstBlockTime"
    and "bnTargetLimit \<equiv> GetLimit h params fProofOfStake"
    and "bnNew \<equiv> DecodeCompact C (nBits pindexLast)"
    and "maskPlus1 \<equiv> uint (StakeTimestampMask params h + 1)"
  shows "(h < QIP9Height params \<longrightarrow>
            CalculateNextWorkRequired C pindexLast nFirstBlockTime params fProofOfStake
              = legacy_blend C bnNew nInterval T (legacy_spacing T 10 x) bnTargetLimit)
       \<and> (\<not> h < QIP9Height params \<longrightarrow> maskPlus1 \<noteq> 0 \<longrightarrow>
            CalculateNextWorkRequired C pindexLast nFirstBlockTime params fProofOfStake
              = (case mul_exp bnNew (cdiv (2 * (legacy_spacing T 20 x - T)) maskPlus1)
                        (cdiv ((nInterval + 1) * T) maskPlus1) of
                   Inl e \<Rightarrow> Inl e
                 | Inr bn \<Rightarrow> Inr (GetCompact C (limit_target bnTargetLimit bn))))
       \<and> (0 \<le> T \<longrightarrow> 1 \<le> c \<longrightarrow> 0 \<le> legacy_spacing T c x \<and> legacy_spacing T c x \<le> c * T)
       \<and> (x < 0 \<longrightarrow> 0 \<le> T \<longrightarrow> 1 \<le> c \<longrightarrow> legacy_spacing T c x = T)
       \<and> (0 \<le> x \<longrightarrow> legacy_spacing T c x = min x (c * T))
       \<and> limit_target bnTargetLimit t \<le> bnTargetLimit
       \<and> (t \<le> 0 \<or> t > bnTargetLimit \<longrightarrow> limit_target bnTargetLimit t = bnTargetLimit)
       \<and> (\<not> (t \<le> 0 \<or> t > bnTargetLimit) \<longrightarrow> limit_target bnTargetLimit t = t)"
proof -
  have spacing: "(if T * c < (if x < 0 then T else x) then T * c else (if x < 0 then T else x))
                   = legacy_spacing T c x" for c
    by (simp add: legacy_spacing_def min_def mult.commute)
  have twice: "a + b + b = a + 2 * b" for a b :: int
    by simp
  have noflag: "(if fProofOfStake then fPoSNoRetargeting params else fPowNoRetargeting params)
                  = False"
    using flag by simp
  note unfolded = CalculateNextWorkRequired_def [of C pindexLast nFirstBlockTime params
      fProofOfStake, unfolded Let_def noflag if_False, folded h_def,
      folded T_def x_def bnTargetLimit_def bnNew_def maskPlus1_def,
      unfolded interval [folded h_def] sum.case spacing twice, folded limit_target_def]
  have pre: "h < QIP9Height params \<longrightarrow>
            CalculateNextWorkRequired C pindexLast nFirstBlockTime params fProofOfStake
              = legacy_blend C bnNew nInterval T (legacy_spacing T 10 x) bnTargetLimit"
    by (simp add: unfolded legacy_blend_def split del: if_split)
  have post: "\<not> h < QIP9Height params \<longrightarrow> maskPlus1 \<noteq> 0 \<longrightarrow>
            CalculateNextWorkRequired C pindexLast nFirstBlockTime params fProofOfStake
              = (case mul_exp bnNew (cdiv (2 * (legacy_spacing T 20 x - T)) maskPlus1)
                        (cdiv ((nInterval + 1) * T) maskPlus1) of
                   Inl e \<Rightarrow> Inl e
                 | Inr bn \<Rightarrow> Inr (GetCompact C (limit_target bnTargetLimit bn)))"
    by (simp add: unfolded split del: if_split)
  have range: "0 \<le> T \<longrightarrow> 1 \<le> c \<longrightarrow> 0 \<le> legacy_spacing T c x \<and> legacy_spacing T c x \<le> c * T"
    by (auto simp: legacy_spacing_def)
  have neg: "x < 0 \<longrightarrow> 0 \<le> T \<longrightarrow> 1 \<le> c \<longrightarrow> legacy_spacing T c x = T"
  proof (intro impI)
    assume "x < 0" "0 \<le> T" "1 \<le> c"
    then have "T \<le> c * T"
      using mult_right_mono [of 1 c T] by simp
    with \<open>x < 0\<close> show "legacy_spacing T c x = T"
      by (simp add: legacy_spacing_def)
  qed
  have nonneg: "0 \<le> x \<longrightarrow> legacy_spacing T c x = min x (c * T)"
    by (simp add: legacy_spacing_def)
  have lim: "limit_target bnTargetLimit t \<le> bnTargetLimit"
    "t \<le> 0 \<or> t > bnTargetLimit \<longrightarrow> limit_target bnTargetLimit t = bnTargetLimit"
    "\<not> (t \<le> 0 \<or> t > bnTargetLimit) \<longrightarrow> limit_target bnTargetLimit t = t"
    by (auto simp: limit_target_def)
  show ?thesis
    using pre post range neg nonneg lim by blast
qed

lemma GetCompact_1c00ffff: "GetCompact arith_compact 0xFFFF00000000000000000000000000000000000000000000000000 = 0x1c00ffff"
proof -
  have "bits_nat 0xFFFF00000000000000000000000000000000000000000000000000 = Suc 215"
    by (rule bits_nat_eq) simp_all
  then show ?thesis
    by (simp add: arith_compact_def arith_GetCompact_def)
qed

lemma GetCompact_1b7fff80: "GetCompact arith_compact 0x7fff80000000000000000000000000000000000000000000000000 = 0x1b7fff80"
proof -
  have "bits_nat 0x7fff80000000000000000000000000000000000000000000000000 = Suc 214"
    by (rule bits_nat_eq) simp_all
  then show ?thesis
    by (simp add: arith_compact_def arith_GetCompact_def)
qed

lemma params0_legacy_fields [simp]:
  "QIP9Height params0 = 1000" "nReduceBlocktimeHeight params0 = 2000"
  "nPowTargetTimespan params0 = 30" "nPowTargetTimespanV2 params0 = 30"
  "nStakeTimestampMask params0 = 15"
  by (simp_all add: params0_def)

lemma legacy_example_interval4:
  "DifficultyAdjustmentInterval params0 4 = Inr 3"
  "DifficultyAdjustmentInterval (params0\<lparr>QIP9Height := 0\<rparr>) 4 = Inr 3"
  by (simp_all add: DifficultyAdjustmentInterval_def TargetTimespan_def TargetSpacing_def
      cdiv_def)

lemma legacy_example_interval:
  "DifficultyAdjustmentInterval params0 (nHeight (example_block3 bits s1 s2) + 1) = Inr 3"
  "DifficultyAdjustmentInterval (params0\<lparr>QIP9Height := 0\<rparr>)
     (nHeight (example_block3 bits s1 s2) + 1) = Inr 3"
  by (simp_all add: legacy_example_interval4)

text \<open>
  Counterexample to C7 as stated: the previous block is 5 seconds older than the first
  block of the interval (\<open>T = 10\<close>, interval 3, bits \<open>0x1c00ffff\<close>). Clamping the
  spacing to \<open>[0, 100]\<close> gives 0 and would halve the target (\<open>0x1b7fff80\<close>); the code
  takes the spacing 10 and leaves the target as it is.
\<close>

theorem CalculateNextWorkRequired_clamp_counterexample:
  "CalculateNextWorkRequired arith_compact (example_block3 0x1c00ffff 10 10) 1035 params0 False
     = Inr 0x1c00ffff
   \<and> legacy_blend arith_compact (DecodeCompact arith_compact 0x1c00ffff) 3 10
       (clamp_spacing (10 * 10) (1030 - 1035)) 0xFFFF0000000000000000000000000000000000000000000000000000
     = Inr 0x1b7fff80"
  by (simp add: CalculateNextWorkRequired_def legacy_example_interval4 TargetSpacing_def
      GetLimit_def UintToArith256_def DecodeCompact_def SetCompact_1c00ffff
      arith_mul_def arith_div_def arith_of_int64_def legacy_blend_def clamp_spacing_def
      limit_target_def GetCompact_1c00ffff GetCompact_1b7fff80)

text \<open>
  Witness of the amended C7, on the same input: below the threshold, and from the
  threshold on (\<open>QIP9Height = 0\<close>), where \<open>mul_exp\<close> with exponent 0 returns the target.
\<close>

theorem CalculateNextWorkRequired_legacy_witness:
  "CalculateNextWorkRequired arith_compact (example_block3 0x1c00ffff 10 10) 1035 params0 False
     = Inr 0x1c00ffff
   \<and> legacy_spacing 10 10 (1030 - 1035) = 10
   \<and> CalculateNextWorkRequired arith_compact (example_block3 0x1c00ffff 10 10) 1035
       (params0\<lparr>QIP9Height := 0\<rparr>) False
     = Inr 0x1c00ffff"
proof -
  have flag: "\<not> (if False then fPoSNoRetargeting params0 else fPowNoRetargeting params0)"
    "\<not> (if False then fPoSNoRetargeting (params0\<lparr>QIP9Height := 0\<rparr>)
         else fPowNoRetargeting (params0\<lparr>QIP9Height := 0\<rparr>))"
    by simp_all
  have pre: "CalculateNextWorkRequired arith_compact (example_block3 0x1c00ffff 10 10) 1035
               params0 False = Inr 0x1c00ffff"
    using CalculateNextWorkRequired_legacy [OF flag(1) legacy_example_interval(1),
        of "0x1c00ffff" 10 10 arith_compact 1035 1 0]
    by (simp add: TargetSpacing_def GetLimit_def UintToArith256_def
        DecodeCompact_def SetCompact_1c00ffff legacy_blend_def legacy_spacing_def
        arith_mul_def arith_div_def arith_of_int64_def limit_target_def GetCompact_1c00ffff)
  have spacing: "legacy_spacing 10 10 (1030 - 1035) = 10"
    using CalculateNextWorkRequired_legacy [OF flag(1) legacy_example_interval(1),
        of "0x1c00ffff" 10 10 arith_compact 1035 10 0]
    by (simp add: TargetSpacing_def)
  have post: "CalculateNextWorkRequired arith_compact (example_block3 0x1c00ffff 10 10) 1035
               (params0\<lparr>QIP9Height := 0\<rparr>) False = Inr 0x1c00ffff"
    using CalculateNextWorkRequired_legacy [OF flag(2) legacy_example_interval(2),
        of "0x1c00ffff" 10 10 arith_compact 1035 1 0]
    by (simp add: TargetSpacing_def GetLimit_def UintToArith256_def
        StakeTimestampMask_def DecodeCompact_def SetCompact_1c00ffff legacy_spacing_def
        cdiv_def mul_exp_def mul_exp_loop.simps
        arith_mul_def arith_div_def arith_of_int64_def limit_target_def GetCompact_1c00ffff)
  show ?thesis
    using pre spacing post by simp
qed

section \<open>Seed selection\<close>

lemma seed_words:
  fixes height SeedInterval SeedStartingHeight :: uint32
  assumes I: "SeedInterval \<noteq> 0"
    and nowrap: "unat height + unat SeedInterval < 2 ^ 32"
  defines "H \<equiv> unat height" and "I \<equiv> unat SeedInterval" and "S \<equiv> unat SeedStartingHeight"
  defines "r \<equiv> H mod I" and "sw \<equiv> S mod I"
  defines "remainer \<equiv> height mod SeedInterval"
    and "SwitchKey \<equiv> SeedStartingHeight mod SeedInterval"
  shows "unat remainer = r" and "unat SwitchKey = sw"
    and "unat (height - remainer) = H - r"
    and "height > height - remainer + SwitchKey \<longleftrightarrow> r > sw"
    and "height > height - remainer \<longleftrightarrow> r > 0"
    and "I + r \<le> H \<Longrightarrow> unat (height - SeedInterval - remainer) = H - I - r"
    and "I + r \<le> H \<Longrightarrow> height > height - SeedInterval - remainer"
    and "H < I \<Longrightarrow> \<not> height > height - SeedInterval - remainer"
proof -
  have Ipos: "0 < I"
    using I by (simp add: I_def unat_gt_0)
  show r: "unat remainer = r"
    by (simp add: remainer_def r_def H_def I_def unat_mod)
  show sw: "unat SwitchKey = sw"
    by (simp add: SwitchKey_def sw_def S_def I_def unat_mod)
  have rH: "r \<le> H" by (simp add: r_def)
  have rI: "r < I" using Ipos by (simp add: r_def)
  have swI: "sw < I" using Ipos by (simp add: sw_def)
  have remle: "remainer \<le> height"
    using rH by (simp add: word_le_nat_alt r H_def)
  show fc: "unat (height - remainer) = H - r"
    using remle by (simp add: unat_sub r H_def)
  have "unat (height - remainer) + unat SwitchKey < 2 ^ LENGTH(32)"
    using nowrap swI rH by (simp add: fc sw H_def I_def)
  then have sum: "unat (height - remainer + SwitchKey) = H - r + sw"
    by (simp add: unat_add_lem [THEN iffD1] fc sw)
  show "height > height - remainer + SwitchKey \<longleftrightarrow> r > sw"
    using rH by (auto simp: word_less_nat_alt sum H_def)
  show "height > height - remainer \<longleftrightarrow> r > 0"
    using rH by (auto simp: word_less_nat_alt fc H_def)
  have Ile: "I + r \<le> H \<Longrightarrow> SeedInterval \<le> height"
    by (simp add: word_le_nat_alt H_def I_def)
  have sub1: "I + r \<le> H \<Longrightarrow> unat (height - SeedInterval) = H - I"
    using Ile by (simp add: unat_sub H_def I_def)
  have rem2: "I + r \<le> H \<Longrightarrow> remainer \<le> height - SeedInterval"
    using sub1 by (simp add: word_le_nat_alt r)
  show sc: "I + r \<le> H \<Longrightarrow> unat (height - SeedInterval - remainer) = H - I - r"
    using rem2 sub1 by (simp add: unat_sub r)
  show "I + r \<le> H \<Longrightarrow> height > height - SeedInterval - remainer"
    using Ipos by (simp add: word_less_nat_alt sc) (simp add: H_def)
  show "\<not> height > height - SeedInterval - remainer" if "H < I"
  proof -
    from that have rem: "unat remainer = H"
      by (simp add: r r_def)
    have "unat (height - SeedInterval) = H + 2 ^ 32 - I"
      using that by (simp add: unat_sub_if' H_def I_def)
    moreover have "I < 2 ^ 32"
      using unsigned_less [of SeedInterval, where 'a = nat] by (simp add: I_def)
    ultimately have "unat (height - SeedInterval - remainer) = 2 ^ 32 - I"
      by (simp add: unat_sub_if' [of "height - SeedInterval" remainer] rem)
    then show ?thesis
      using nowrap by (simp add: word_less_nat_alt H_def I_def)
  qed
qed


lemma sint_small:
  fixes w :: uint32
  assumes "unat w < 2 ^ 31"
  shows "sint w = int (unat w)"
proof -
  have eq: "uint w = int (unat w)"
    by (rule uint_nat)
  have "int (unat w) < int (2 ^ 31)"
    using assms by (simp only: of_nat_less_iff)
  then have "uint w < 2 ^ 31"
    by (simp only: eq of_nat_power of_nat_numeral)
  moreover have "- (2 ^ 31) \<le> uint w"
  proof (rule order_trans)
    show "- (2 ^ 31) \<le> (0::int)" by simp
    show "0 \<le> uint w" by (rule uint_ge_0)
  qed
  ultimately have "signed_take_bit 31 (uint w) = uint w"
    by (rule signed_take_bit_int_eq_self [rotated])
  moreover have "sint w = signed_take_bit (LENGTH(32) - Suc 0) (uint w)"
    by (rule sint_uint)
  ultimately show ?thesis
    by (simp only: eq) simp
qed


lemma CChain_at_nat:
  "n < length chain \<Longrightarrow> CChain_at chain (int n) = Some (chain ! n)"
  by (simp add: CChain_at_def)

subsection \<open>Heights up to the starting height\<close>

text \<open>
  The index handed to \<open>operator[]\<close> is the start of the window minus
  \<open>SeedStartingHeight\<close>, computed in \<open>uint32_t\<close> and converted to \<open>int\<close>. When the start
  of the window lies below \<open>SeedStartingHeight\<close> the difference wraps, the \<open>int\<close> is
  negative, and \<open>operator[]\<close> returns null.
\<close>

lemma CChain_at_negative: "i < 0 \<Longrightarrow> CChain_at chain i = None"
  by (simp add: CChain_at_def)


lemma sint_negative:
  fixes w :: uint32
  assumes lo: "2147483648 \<le> uint w"
  shows "sint w < 0"
proof -
  have "uint w < 2 ^ LENGTH(32)"
    by (rule uint_lt2p)
  then have hi: "uint w < 4294967296"
    by simp
  have len: "LENGTH(32) - Suc 0 = 31"
    by simp
  have "2 ^ 31 \<le> uint w"
    using lo by simp
  then have "signed_take_bit 31 (uint w) \<le> uint w - 2 ^ Suc 31"
    by (rule signed_take_bit_int_less_eq)
  moreover have "sint w = signed_take_bit 31 (uint w)"
    unfolding len [symmetric] by (rule sint_uint)
  ultimately have "sint w \<le> uint w - 2 ^ Suc 31"
    by (simp only:)
  also have "\<dots> < 0"
    using hi by simp
  finally show ?thesis .
qed

lemma sint_sub_start:
  fixes w :: uint32
  assumes "w < 1000"
  shows "sint (w - 1000) < 0"
proof -
  from assms have small: "uint w < 1000"
    by (simp add: word_less_alt)
  have ge: "0 \<le> uint w"
    by (rule uint_ge_0)
  have "uint (w - 1000) = uint w - uint (1000 :: uint32) + 2 ^ LENGTH(32)"
    using small by (simp only: uint_sub_if') simp
  then have u: "uint (w - 1000) = uint w - 1000 + 4294967296"
    by simp
  have "2147483648 \<le> uint (w - 1000)"
    unfolding u using ge by simp
  then show ?thesis
    by (rule sint_negative)
qed

lemma below_start_checks:
  fixes height :: uint32
  assumes pos: "0 < height" and le: "height \<le> 1000"
  shows "(height - height mod 100 < height
            \<longrightarrow> sint (height - height mod 100 - 1000) < 0)
       \<and> (\<not> height - height mod 100 < height
            \<longrightarrow> height - 100 - height mod 100 < height
                \<and> sint (height - 100 - height mod 100 - 1000) < 0)"
proof -
  let ?H = "unat height"
  let ?r = "?H mod 100"
  have I: "(100 :: uint32) \<noteq> 0"
    by simp
  have H: "0 < ?H" "?H \<le> 1000"
    using pos le by (simp_all add: word_less_nat_alt word_le_nat_alt)
  then have nowrap: "?H + unat (100 :: uint32) < 2 ^ 32"
    by simp
  have fc: "unat (height - height mod 100) = ?H - ?r"
    using seed_words(3) [where SeedInterval = 100 and height = height, OF I nowrap] by simp
  have first: "height > height - height mod 100 \<longleftrightarrow> ?r > 0"
    using seed_words(5) [where SeedInterval = 100 and height = height, OF I nowrap] by simp
  have a: "sint (height - height mod 100 - 1000) < 0" if "?r > 0"
  proof -
    from that H have "?H - ?r < 1000"
      by simp
    then have "height - height mod 100 < 1000"
      by (simp add: word_less_nat_alt fc)
    then show ?thesis
      by (rule sint_sub_start)
  qed
  have b: "height - 100 - height mod 100 < height
           \<and> sint (height - 100 - height mod 100 - 1000) < 0" if "?r = 0"
  proof -
    from that H have ge: "unat (100 :: uint32) + ?H mod unat (100 :: uint32) \<le> ?H"
      by (simp add: mod_eq_0_iff_dvd dvd_imp_le)
    have sc: "unat (height - 100 - height mod 100) = ?H - 100 - ?r"
      using seed_words(6) [where SeedInterval = 100 and height = height, OF I nowrap ge]
      by simp
    have lt: "height > height - 100 - height mod 100"
      by (rule seed_words(7) [where SeedInterval = 100 and height = height, OF I nowrap ge])
    from H have "?H - 100 - ?r < 1000"
      by simp
    then have "height - 100 - height mod 100 < 1000"
      by (simp add: word_less_nat_alt sc)
    then have "sint (height - 100 - height mod 100 - 1000) < 0"
      by (rule sint_sub_start)
    with lt show ?thesis
      by simp
  qed
  show ?thesis
    using first a b by (cases "?r = 0") simp_all
qed

text \<open>
  C9, at the inputs where it fails. With \<open>SeedInterval = 100\<close> and
  \<open>SeedStartingHeight = 1000\<close>, every height from 1 to 1000 ends in a dereferenced null
  pointer, on every chain and for every retained seed: lines 16-19 have seeded from the
  genesis block, and then line 28 or line 33 looks up a block at a negative index and
  reads its hash. The claim has the genesis hash returned for every height below
  \<open>SeedStartingHeight\<close>; the code returns it for height 0 only.
\<close>

theorem GetRandomXSeed_null_up_to_start:
  assumes "0 < height" and "height \<le> 1000"
  shows "GetRandomXSeed chain seed_params key height = Inl NullPointer"
  using below_start_checks [OF assms]
  by (simp add: GetRandomXSeed_def seed_params_def Let_def CChain_at_negative Genesis_def
      split: option.split)

text \<open>
  The previous theorem at the heights 50, 999 and 1000 on the chain of four blocks, on
  a first call (nothing retained); height 0 returns the genesis hash.
\<close>

theorem GetRandomXSeed_null_up_to_start_witness:
  "GetRandomXSeed seed_chain seed_params 0 0 = Inr (GetBlockHash genesis0)
   \<and> GetRandomXSeed seed_chain seed_params 0 50 = Inl NullPointer
   \<and> GetRandomXSeed seed_chain seed_params 0 999 = Inl NullPointer
   \<and> GetRandomXSeed seed_chain seed_params 0 1000 = Inl NullPointer"
proof -
  have "GetRandomXSeed seed_chain seed_params 0 0 = Inr (GetBlockHash genesis0)"
    by (simp add: GetRandomXSeed_def seed_params_def seed_chain_def Genesis_def CChain_at_def)
  moreover have "GetRandomXSeed seed_chain seed_params 0 50 = Inl NullPointer"
    by (rule GetRandomXSeed_null_up_to_start) simp_all
  moreover have "GetRandomXSeed seed_chain seed_params 0 999 = Inl NullPointer"
    by (rule GetRandomXSeed_null_up_to_start) simp_all
  moreover have "GetRandomXSeed seed_chain seed_params 0 1000 = Inl NullPointer"
    by (rule GetRandomXSeed_null_up_to_start) simp_all
  ultimately show ?thesis
    by simp
qed

subsection \<open>Where the call returns\<close>

text \<open>
  Let \<open>r\<close> be the height modulo \<open>SeedInterval\<close> and \<open>SwitchKey\<close> be
  \<open>SeedStartingHeight\<close> modulo \<open>SeedInterval\<close>; the windows are the multiples of
  \<open>SeedInterval\<close>. When \<open>r\<close> is above \<open>SwitchKey\<close>, \<open>GetRandomXSeed\<close> returns the hash
  of the active-chain block at the start of the current window minus
  \<open>SeedStartingHeight\<close>; otherwise the one at the start of the previous window minus
  \<open>SeedStartingHeight\<close>; and for a height below \<open>SeedInterval\<close> with \<open>r\<close> at most
  \<open>SwitchKey\<close> the retained value, which is the genesis hash when nothing was retained.
  The same height queried again right after itself returns the same seed.
\<close>

theorem GetRandomXSeed_windows:
  fixes height :: uint32
  assumes interval: "RX2SeedInterval p \<noteq> 0"
    and nowrap: "unat height + unat (RX2SeedInterval p) < 2 ^ 32"
    and genesis: "Genesis chain = Some g"
  defines "H \<equiv> unat height" and "I \<equiv> unat (RX2SeedInterval p)"
    and "S \<equiv> unat (RX2SeedHeight p)"
  defines "r \<equiv> H mod I" and "sw \<equiv> S mod I"
  shows "(sw < r \<longrightarrow> S \<le> H - r \<longrightarrow> H - r - S < length chain \<longrightarrow> H - r - S < 2 ^ 31 \<longrightarrow>
           GetRandomXSeed chain p current height = Inr (GetBlockHash (chain ! (H - r - S))))
    \<and> (r \<le> sw \<longrightarrow> I + S \<le> H - r \<longrightarrow> H - r - I - S < length chain
           \<longrightarrow> H - r - I - S < 2 ^ 31 \<longrightarrow>
           GetRandomXSeed chain p current height = Inr (GetBlockHash (chain ! (H - r - I - S))))
    \<and> (r \<le> sw \<longrightarrow> H < I \<longrightarrow>
           GetRandomXSeed chain p current height
             = Inr (if current = 0 then GetBlockHash g else current))
    \<and> (GetRandomXSeed chain p current height = Inr seed \<longrightarrow>
           GetRandomXSeed chain p seed height = Inr seed)"
proof -
  note w_first = seed_words(3) [OF interval nowrap, folded H_def I_def, folded r_def]
    and w_switch = seed_words(4) [OF interval nowrap, of "RX2SeedHeight p",
        folded H_def I_def S_def, folded r_def sw_def]
    and w_gt_first = seed_words(5) [OF interval nowrap, folded H_def I_def, folded r_def]
    and w_second = seed_words(6) [OF interval nowrap, folded H_def I_def, folded r_def]
    and w_gt_second = seed_words(7) [OF interval nowrap, folded H_def I_def, folded r_def]
    and w_wrap = seed_words(8) [OF interval nowrap, folded H_def I_def, folded r_def]
  let ?rem = "height mod RX2SeedInterval p"
  let ?first = "height - ?rem"
  let ?second = "height - RX2SeedInterval p - ?rem"
  have c1: "sw < r \<longrightarrow> S \<le> H - r \<longrightarrow> H - r - S < length chain \<longrightarrow> H - r - S < 2 ^ 31 \<longrightarrow>
           GetRandomXSeed chain p current height = Inr (GetBlockHash (chain ! (H - r - S)))"
  proof (intro impI)
    assume a: "sw < r" "S \<le> H - r" "H - r - S < length chain" "H - r - S < 2 ^ 31"
    have "RX2SeedHeight p \<le> ?first"
      using a(2) by (simp add: word_le_nat_alt w_first S_def)
    then have "unat (?first - RX2SeedHeight p) = H - r - S"
      by (simp add: unat_sub w_first S_def)
    then have "sint (?first - RX2SeedHeight p) = int (H - r - S)"
      using a(4) sint_small [of "?first - RX2SeedHeight p"] by simp
    then show "GetRandomXSeed chain p current height = Inr (GetBlockHash (chain ! (H - r - S)))"
      using a interval genesis w_switch w_gt_first
      by (simp add: GetRandomXSeed_def Let_def CChain_at_nat)
  qed
  have c2: "r \<le> sw \<longrightarrow> I + S \<le> H - r \<longrightarrow> H - r - I - S < length chain
           \<longrightarrow> H - r - I - S < 2 ^ 31 \<longrightarrow>
           GetRandomXSeed chain p current height = Inr (GetBlockHash (chain ! (H - r - I - S)))"
  proof (intro impI)
    assume a: "r \<le> sw" "I + S \<le> H - r" "H - r - I - S < length chain" "H - r - I - S < 2 ^ 31"
    have "0 < I"
      using interval by (simp add: I_def unat_gt_0)
    with a(2) have Ir: "I + r \<le> H" by arith
    have sc: "unat ?second = H - I - r"
      by (rule w_second [OF Ir])
    have "RX2SeedHeight p \<le> ?second"
      using a(2) by (simp add: word_le_nat_alt sc S_def)
    then have "unat (?second - RX2SeedHeight p) = H - I - r - S"
      by (simp add: unat_sub sc S_def)
    moreover have "H - I - r - S = H - r - I - S"
      by simp
    ultimately have "sint (?second - RX2SeedHeight p) = int (H - r - I - S)"
      using a(4) sint_small [of "?second - RX2SeedHeight p"] by simp
    then show "GetRandomXSeed chain p current height
                 = Inr (GetBlockHash (chain ! (H - r - I - S)))"
      using a interval genesis w_switch w_gt_second [OF Ir]
      by (simp add: GetRandomXSeed_def Let_def CChain_at_nat)
  qed
  have c3: "r \<le> sw \<longrightarrow> H < I \<longrightarrow>
           GetRandomXSeed chain p current height
             = Inr (if current = 0 then GetBlockHash g else current)"
    using interval genesis w_switch w_wrap
    by (simp add: GetRandomXSeed_def Let_def)
  have c4: "GetRandomXSeed chain p current height = Inr seed \<longrightarrow>
           GetRandomXSeed chain p seed height = Inr seed"
    using genesis
    by (auto simp: GetRandomXSeed_def Let_def split: if_splits option.splits)
  show ?thesis
    using c1 c2 c3 c4 by blast
qed

text \<open>
  The previous theorem at \<open>SeedInterval = 2\<close>, \<open>SeedStartingHeight = 2\<close>: height 5
  gets block 2, height 4 gets block 0, height 0 gets the retained seed, and height 5
  asked again gets the same seed.
\<close>

theorem GetRandomXSeed_windows_example:
  "GetRandomXSeed seed_chain params0 0 5 = Inr 0x102
   \<and> GetRandomXSeed seed_chain params0 0 4 = Inr 0x100
   \<and> GetRandomXSeed seed_chain params0 0x102 0 = Inr 0x102
   \<and> GetRandomXSeed seed_chain params0 0x102 5 = Inr 0x102"
proof -
  have g: "Genesis seed_chain = Some genesis0"
    by (simp add: Genesis_def CChain_at_def seed_chain_def)
  have p: "RX2SeedInterval params0 = 2" "RX2SeedHeight params0 = 2"
    by (simp_all add: params0_def)
  have hashes: "GetBlockHash (seed_chain ! 2) = 0x102" "GetBlockHash (seed_chain ! 0) = 0x100"
    "GetBlockHash genesis0 = 0x100"
    by (simp_all add: seed_chain_def GetBlockHash_def genesis0_def example_block2_def)
  have five: "GetRandomXSeed seed_chain params0 0 5 = Inr 0x102"
    using GetRandomXSeed_windows [of params0 5 seed_chain genesis0 0 0] g
    by (simp add: p hashes) (simp add: seed_chain_def)
  have four: "GetRandomXSeed seed_chain params0 0 4 = Inr 0x100"
    using GetRandomXSeed_windows [of params0 4 seed_chain genesis0 0 0] g
    by (simp add: p hashes) (simp add: seed_chain_def)
  have zero: "GetRandomXSeed seed_chain params0 0x102 0 = Inr 0x102"
    using GetRandomXSeed_windows [of params0 0 seed_chain genesis0 "0x102" 0] g
    by (simp add: p hashes)
  have again: "GetRandomXSeed seed_chain params0 0x102 5 = Inr 0x102"
    using GetRandomXSeed_windows [of params0 5 seed_chain genesis0 0 "0x102"] g five
    by (simp add: p)
  show ?thesis
    using five four zero again by simp
qed

text \<open>
  The same parameters on the chain of four blocks. Height 3 lies past the offset in the
  window that starts at 2, whose first block has the hash \<open>0x102\<close>, and the seed is the
  hash \<open>0x100\<close> of block 0. Height 1 is below \<open>SeedStartingHeight\<close> and the lookup at
  index \<open>0 - 2\<close> dereferences null. Height 0 returns \<open>0x100\<close> at first and \<open>0x102\<close> once
  a query for height 5 has come in between.
\<close>

theorem GetRandomXSeed_small_chain_example:
  "GetRandomXSeed seed_chain params0 0 3 = Inr 0x100
   \<and> spec_seed_height 2 2 3 = 2
   \<and> map_option GetBlockHash (CChain_at seed_chain 2) = Some 0x102
   \<and> GetRandomXSeed seed_chain params0 0 1 = Inl NullPointer
   \<and> GetRandomXSeed seed_chain params0 0 0 = Inr 0x100
   \<and> GetRandomXSeed seed_chain params0 0x100 5 = Inr 0x102
   \<and> GetRandomXSeed seed_chain params0 0x102 0 = Inr 0x102"
  by (simp add: GetRandomXSeed_def params0_def seed_chain_def CChain_at_def Genesis_def
      GetBlockHash_def genesis0_def example_block1_def example_block2_def example_block3_def
      spec_seed_height_def Let_def)

section \<open>The hash engine\<close>

text \<open>
  C3, at an input where it fails. The same 144 bytes hashed under seed 1 and then under
  seed 2: the second call of \<open>rx_slow_hash2\<close> rebuilds the context for seed 2 and then
  returns the memoized hash of seed 1, where \<open>rx_slow_hash\<close> computes the hash of
  seed 2. The memo is compared on the first 144 bytes of the input only, and not on the
  seed.
\<close>

theorem rx_slow_hash2_stale_memo:
  "(case rx_slow_hash2 example_randomx rx_init2 (replicate 144 7) 144 1 of
      Inl e \<Rightarrow> False
    | Inr (hash1, st) \<Rightarrow>
        hash1 = replicate 32 1
        \<and> rx_slow_hash2 example_randomx st (replicate 144 7) 144 2
            = Inr (replicate 32 1, st\<lparr>randomx_seed2 := 2, cache := Some 2, rx_vm := Some 2\<rparr>))
   \<and> (case rx_slow_hash example_randomx rx_init (replicate 144 7) 144 1 of
      Inl e \<Rightarrow> False
    | Inr (hash1, st) \<Rightarrow>
        hash1 = replicate 32 1
        \<and> map_sum id fst (rx_slow_hash example_randomx st (replicate 144 7) 144 2)
            = Inr (replicate 32 2))"
  by (simp add: rx_slow_hash2_def rx_slow_hash_def rx_init2_def rx_init_def example_randomx_def
      Let_def)

end
